theory Spec2Isabelle
  imports Complex_Main "HOL-Library.Word"
begin

section \<open>pg\_stat\_monitor: the statistics store and the fingerprint engine\<close>

text \<open>
  The embedding follows \<^verbatim>\<open>pg_stat_monitor.c\<close>, function by function. The header
  \<^verbatim>\<open>pg_stat_monitor.h\<close> is not among the sources, so every macro it defines
  (\<^verbatim>\<open>PGSM_MAX\<close>, \<^verbatim>\<open>PGSM_MAX_BUCKETS\<close>, \<^verbatim>\<open>JUMBLE_SIZE\<close>, ...) is a field of the
  records \<open>config\<close> and \<open>jumble_config\<close>, and every theorem holds for whichever values
  they have. Locks are left out: every function is modelled as it runs alone.
  Shared-memory arrays indexed by a bucket id are total functions on \<open>nat\<close>; the C code
  indexes them with the current bucket id only. A \<^verbatim>\<open>double\<close> is a \<open>real\<close>.
\<close>

subsection \<open>Bytes and memory\<close>

type_synonym byte = "8 word"
type_synonym uint64 = "64 word"

datatype pgsm_error =
    OutOfBounds          \<comment> \<open>a \<^verbatim>\<open>memcpy\<close> that leaves the array it addresses\<close>
  | NullPointer          \<comment> \<open>a dereference of \<^verbatim>\<open>NULL\<close>\<close>
  | DivisionByZero       \<comment> \<open>\<^verbatim>\<open>%\<close> by a zero buffer size\<close>
  | ElogError string     \<comment> \<open>\<^verbatim>\<open>elog(ERROR, ...)\<close>: a non-local exit\<close>

datatype elevel = INFO

text \<open>
  \<^verbatim>\<open>memcpy(&buf[off], &v, sizeof (uint64))\<close> copies the eight bytes of \<open>v\<close> in host
  order; the model takes a little-endian host.
\<close>

definition bytes_of_uint64 :: "uint64 \<Rightarrow> byte list" where
  "bytes_of_uint64 w = map (\<lambda>i. ucast (drop_bit (8 * i) w)) [0..<8]"

fun uint64_of_bytes :: "byte list \<Rightarrow> uint64" where
  "uint64_of_bytes [] = 0"
| "uint64_of_bytes (b # bs) = or (ucast b) (push_bit 8 (uint64_of_bytes bs))"

definition mem_read :: "byte list \<Rightarrow> nat \<Rightarrow> nat \<Rightarrow> byte list option" where
  "mem_read buf off n =
     (if off + n \<le> length buf then Some (take n (drop off buf)) else None)"

definition mem_write :: "byte list \<Rightarrow> nat \<Rightarrow> byte list \<Rightarrow> byte list option" where
  "mem_write buf off src =
     (if off + length src \<le> length buf
      then Some (take off buf @ src @ drop (off + length src) buf) else None)"

subsection \<open>Configuration and shared state\<close>

record config =
  PGSM_MAX :: nat
  PGSM_MAX_BUCKETS :: nat
  PGSM_BUCKET_TIME :: nat
  PGSM_QUERY_MAX_LEN :: nat
  PGSM_QUERY_BUF_SIZE :: nat
  PGSM_NORMALIZED_QUERY :: bool
  PGSM_RESPOSE_TIME_LOWER_BOUND :: int
  PGSM_RESPOSE_TIME_STEP :: int
  MAX_RESPONSE_BUCKET :: nat
  USAGE_INIT :: real
  USAGE_EXEC :: "real \<Rightarrow> real"

text \<open>\<^verbatim>\<open>query_buf_size_bucket = PGSM_QUERY_BUF_SIZE / PGSM_MAX_BUCKETS\<close> (shmem startup).\<close>

definition query_buf_size_bucket :: "config \<Rightarrow> nat" where
  "query_buf_size_bucket c = PGSM_QUERY_BUF_SIZE c div PGSM_MAX_BUCKETS c"

record QueryFifo =
  head :: int
  tail :: int

record pgssSharedState =
  cur_median_usage :: real
  current_wbucket :: nat
  prev_bucket_usec :: nat
  bucket_overflow :: "nat \<Rightarrow> nat"
  bucket_entry :: "nat \<Rightarrow> nat"
  query_fifo :: "nat \<Rightarrow> QueryFifo"

record pgssHashKey =
  userid :: nat
  dbid :: nat
  queryid :: uint64
  bucket_id :: nat

record Calls =
  calls :: nat
  rows :: nat
  usage :: real

record CallTime =
  total_time :: real
  min_time :: real
  max_time :: real
  mean_time :: real
  sum_var_time :: real

text \<open>
  \<^verbatim>\<open>Counters\<close>: the per-kind arrays \<^verbatim>\<open>calls[kind]\<close> and \<^verbatim>\<open>time[kind]\<close>
  (\<^verbatim>\<open>kind\<close> is a \<^verbatim>\<open>bool\<close> in \<^verbatim>\<open>pgss_store\<close>). The block, host, table-name and
  rusage members are plain accumulators that no function below reads; they are left out.
\<close>

record Counters =
  kind_calls :: "bool \<Rightarrow> Calls"
  kind_time :: "bool \<Rightarrow> CallTime"

record pgssEntry =
  counters :: Counters
  encoding :: int

datatype AGG_KEY = AGG_KEY_DATABASE | AGG_KEY_USER | AGG_KEY_HOST

record pgssAggHashKey =
  agg_id :: nat
  agg_type :: AGG_KEY
  agg_queryid :: uint64
  agg_bucket_id :: nat

record pgssAggEntry =
  total_calls :: nat

record pgssBucketEntry =
  current_time :: nat
  resp_calls :: "nat \<Rightarrow> nat"

record pgssWaitEventEntry =
  we_queryid :: uint64
  pid :: nat
  wait_event_info :: nat

text \<open>
  The module's globals. A dynahash table is an association list in the order
  \<^verbatim>\<open>hash_seq_search\<close> visits it, with distinct keys; an entry's \<^verbatim>\<open>key\<close> member is
  the key it is stored under. \<^verbatim>\<open>pgssBucketEntries[b]\<close> points at the entry of
  \<open>pgss_buckethash\<close> with key \<open>b\<close> (set up by \<^verbatim>\<open>pgss_shmem_startup\<close>). \<open>elog\<close>
  collects the messages emitted below level \<^verbatim>\<open>ERROR\<close>.
\<close>

record pgsm_state =
  pgss :: pgssSharedState
  pgss_qbuf :: "nat \<Rightarrow> byte list"
  pgss_hash :: "(pgssHashKey \<times> pgssEntry) list"
  pgss_agghash :: "(pgssAggHashKey \<times> pgssAggEntry) list"
  pgss_buckethash :: "(nat \<times> pgssBucketEntry) list"
  pgss_waiteventshash :: "(nat \<times> pgssWaitEventEntry) list"
  elog :: "(elevel \<times> string) list"

subsection \<open>The per-bucket text ring\<close>

text \<open>Integer conversions of C, written out.\<close>

definition uint64_of_int :: "int \<Rightarrow> nat" where
  "uint64_of_int i = nat (i mod 2 ^ 64)"

definition int_of_uint64 :: "nat \<Rightarrow> int" where
  "int_of_uint64 n = (let m = int n mod 2 ^ 32 in if m < 2 ^ 31 then m else m - 2 ^ 32)"

abbreviation FIFO_HEAD :: "pgsm_state \<Rightarrow> nat \<Rightarrow> int" where
  "FIFO_HEAD g b \<equiv> head (query_fifo (pgss g) b)"

abbreviation FIFO_TAIL :: "pgsm_state \<Rightarrow> nat \<Rightarrow> int" where
  "FIFO_TAIL g b \<equiv> tail (query_fifo (pgss g) b)"

text \<open>
  The \<^verbatim>\<open>while\<close> loop of \<^verbatim>\<open>locate_query\<close>. \<open>query\<close> is the destination pointer:
  \<open>None\<close> for \<^verbatim>\<open>NULL\<close>, \<open>Some cap\<close> for a buffer of \<open>cap\<close> bytes; \<open>out\<close> is the text last
  copied into it (the bytes before the terminating zero the loop writes). The copy and
  the terminating zero (lines 2610 and 2611) write \<open>len + 1\<close> bytes: a destination of
  fewer bytes is \<open>OutOfBounds\<close>. The loop need not end on a ring whose records do not
  lead to the head: not returning is \<open>None\<close>.
\<close>

partial_function (option) locate_query_loop ::
  "nat \<Rightarrow> byte list \<Rightarrow> nat \<Rightarrow> uint64 \<Rightarrow> nat option \<Rightarrow> byte list \<Rightarrow> nat
     \<Rightarrow> (pgsm_error + uint64 \<times> byte list) option"
where
  "locate_query_loop bsize buf fhead qid query out ftail =
     (if fhead \<noteq> ftail then
        (case mem_read buf ftail 8 of
           None \<Rightarrow> Some (Inl OutOfBounds)
         | Some idb \<Rightarrow>
        (case mem_read buf (ftail + 8) 8 of
           None \<Rightarrow> Some (Inl OutOfBounds)
         | Some lenb \<Rightarrow>
             if unat (uint64_of_bytes lenb) = 0 then Some (Inr (0, out))
             else
               (case (case query of
                        None \<Rightarrow> Some out
                      | Some cap \<Rightarrow>
                          (case mem_read buf (ftail + 16) (unat (uint64_of_bytes lenb)) of
                             None \<Rightarrow> None
                           | Some txt \<Rightarrow>
                               if unat (uint64_of_bytes lenb) + 1 \<le> cap then Some txt else None))
                of
                  None \<Rightarrow> Some (Inl OutOfBounds)
                | Some out' \<Rightarrow>
                    if uint64_of_bytes idb = qid then Some (Inr (uint64_of_bytes idb, out'))
                    else if bsize = 0 then Some (Inl DivisionByZero)
                    else locate_query_loop bsize buf fhead qid query out'
                           (((ftail + (16 + unat (uint64_of_bytes lenb))) mod 2 ^ 64) mod bsize))))
      else Some (Inr (0, out)))"

definition locate_query ::
  "config \<Rightarrow> pgsm_state \<Rightarrow> nat \<Rightarrow> uint64 \<Rightarrow> nat option \<Rightarrow> byte list
     \<Rightarrow> (pgsm_error + uint64 \<times> byte list) option"
where
  "locate_query c g b qid query out =
     locate_query_loop (query_buf_size_bucket c) (pgss_qbuf g b)
       (uint64_of_int (FIFO_HEAD g b)) qid query out (uint64_of_int (FIFO_TAIL g b))"

text \<open>
  \<^verbatim>\<open>store_query\<close>. \<^verbatim>\<open>next\<close> is an \<^verbatim>\<open>int\<close> that receives a \<^verbatim>\<open>uint64\<close> sum. The
  three \<^verbatim>\<open>memcpy\<close> calls write the id, the length and \<open>query_len\<close> bytes of the text at
  the head; \<open>query\<close> holds the bytes the pointer addresses.
\<close>

definition store_query ::
  "config \<Rightarrow> uint64 \<Rightarrow> byte list \<Rightarrow> nat \<Rightarrow> pgsm_state \<Rightarrow> (pgsm_error + pgsm_state) option"
where
  "store_query c qid query query_len0 g =
     (let b = current_wbucket (pgss g);
          query_len = (if query_len0 > PGSM_QUERY_MAX_LEN c then PGSM_QUERY_MAX_LEN c
                       else query_len0)
      in case locate_query c g b qid None [] of
           None \<Rightarrow> None
         | Some (Inl e) \<Rightarrow> Some (Inl e)
         | Some (Inr (r, _)) \<Rightarrow>
             if r = qid then Some (Inr g)
             else
               let next0 = int_of_uint64
                             ((uint64_of_int (FIFO_HEAD g b) + query_len + 8 + 8) mod 2 ^ 64);
                   next = (if next0 \<ge> int (query_buf_size_bucket c) then 0 else next0)
               in if next = FIFO_HEAD g b
                  then Some (Inr (g\<lparr>elog := elog g @
                          [(INFO, ''pg_stat_monitor: no space left in shared_buffer'')]\<rparr>))
                  else if FIFO_HEAD g b < 0 \<or> length query < query_len
                  then Some (Inl OutOfBounds)
                  else
                    (case mem_write (pgss_qbuf g b) (nat (FIFO_HEAD g b)) (bytes_of_uint64 qid) of
                       None \<Rightarrow> Some (Inl OutOfBounds)
                     | Some buf1 \<Rightarrow>
                    (case mem_write buf1 (nat (FIFO_HEAD g b) + 8)
                            (bytes_of_uint64 (of_nat query_len)) of
                       None \<Rightarrow> Some (Inl OutOfBounds)
                     | Some buf2 \<Rightarrow>
                    (case mem_write buf2 (nat (FIFO_HEAD g b) + 8 + 8) (take query_len query) of
                       None \<Rightarrow> Some (Inl OutOfBounds)
                     | Some buf3 \<Rightarrow>
                         Some (Inr (g\<lparr>pgss_qbuf := (pgss_qbuf g)(b := buf3),
                                      pgss := (pgss g)\<lparr>query_fifo := (query_fifo (pgss g))
                                        (b := (query_fifo (pgss g) b)\<lparr>head := next\<rparr>)\<rparr>\<rparr>))))))"

declare locate_query_loop.simps [code]

text \<open>
  What a well-formed ring holds: the records written since the last rotation, laid end to
  end from offset 0 (the tail is never moved by the code) up to the head.
  \<open>scan_records\<close> is the result the scan of \<^verbatim>\<open>locate_query\<close> has on such a list.
\<close>

fun enc_record :: "uint64 \<times> byte list \<Rightarrow> byte list" where
  "enc_record (i, txt) = bytes_of_uint64 i @ bytes_of_uint64 (of_nat (length txt)) @ txt"

fun scan_records :: "uint64 \<Rightarrow> bool \<Rightarrow> byte list \<Rightarrow> (uint64 \<times> byte list) list \<Rightarrow> uint64 \<times> byte list" where
  "scan_records qid copy out [] = (0, out)"
| "scan_records qid copy out ((i, txt) # rs) =
     (if i = qid then (i, if copy then txt else out)
      else scan_records qid copy (if copy then txt else out) rs)"

definition ring_records :: "config \<Rightarrow> pgsm_state \<Rightarrow> nat \<Rightarrow> (uint64 \<times> byte list) list \<Rightarrow> bool" where
  "ring_records c g b recs \<longleftrightarrow>
     FIFO_TAIL g b = 0 \<and> 0 \<le> FIFO_HEAD g b \<and>
     FIFO_HEAD g b < int (query_buf_size_bucket c) \<and>
     query_buf_size_bucket c < 2 ^ 31 \<and>
     length (pgss_qbuf g b) = query_buf_size_bucket c \<and>
     take (nat (FIFO_HEAD g b)) (pgss_qbuf g b) = concat (map enc_record recs) \<and>
     list_all (\<lambda>(i, t). t \<noteq> []) recs"


subsection \<open>Concrete inputs\<close>

text \<open>A two-bucket configuration with rings of 40 bytes and texts cut at 8 bytes.\<close>

definition ex_config :: config where
  "ex_config = \<lparr>PGSM_MAX = 4, PGSM_MAX_BUCKETS = 2, PGSM_BUCKET_TIME = 60,
     PGSM_QUERY_MAX_LEN = 8, PGSM_QUERY_BUF_SIZE = 80, PGSM_NORMALIZED_QUERY = True,
     PGSM_RESPOSE_TIME_LOWER_BOUND = 1, PGSM_RESPOSE_TIME_STEP = 1, MAX_RESPONSE_BUCKET = 10,
     USAGE_INIT = 1, USAGE_EXEC = (\<lambda>_. 1)\<rparr>"

definition ex_state :: "int \<Rightarrow> byte list \<Rightarrow> pgsm_state" where
  "ex_state h buf = \<lparr>pgss = \<lparr>cur_median_usage = 0, current_wbucket = 0, prev_bucket_usec = 0,
            bucket_overflow = (\<lambda>_. 0), bucket_entry = (\<lambda>_. 0),
            query_fifo = (\<lambda>_. \<lparr>head = 0, tail = 0\<rparr>)(0 := \<lparr>head = h, tail = 0\<rparr>)\<rparr>,
     pgss_qbuf = (\<lambda>_. replicate 40 0)(0 := buf), pgss_hash = [], pgss_agghash = [],
     pgss_buckethash = [], pgss_waiteventshash = [], elog = []\<rparr>"

definition ex_rec1 :: "byte list" where
  "ex_rec1 = [1,0,0,0,0,0,0,0, 4,0,0,0,0,0,0,0, 97,98,99,100]"

definition ex_rec2 :: "byte list" where
  "ex_rec2 = [2,0,0,0,0,0,0,0, 4,0,0,0,0,0,0,0, 101,102,103,104]"


subsection \<open>The statistics table\<close>

text \<open>
  Writes through a pointer to a table entry: \<open>hash_update\<close> changes the entry stored under
  a key. \<^verbatim>\<open>hash_search(..., HASH_REMOVE, ...)\<close> is \<open>hash_remove\<close>,
  \<^verbatim>\<open>hash_search(..., HASH_FIND, ...)\<close> is \<open>map_of\<close>, \<^verbatim>\<open>hash_get_num_entries\<close> is
  \<open>length\<close>. A new entry goes to the end of the list; the error dynahash raises when
  shared memory is exhausted is not modelled.
\<close>

definition hash_update :: "('k \<times> 'v) list \<Rightarrow> 'k \<Rightarrow> ('v \<Rightarrow> 'v) \<Rightarrow> ('k \<times> 'v) list" where
  "hash_update tab k f = map (\<lambda>(k', v). if k' = k then (k', f v) else (k', v)) tab"

definition hash_remove :: "('k \<times> 'v) list \<Rightarrow> 'k \<Rightarrow> ('k \<times> 'v) list" where
  "hash_remove tab k = filter (\<lambda>(k', v). k' \<noteq> k) tab"

definition zero_Counters :: Counters where
  "zero_Counters = \<lparr>kind_calls = (\<lambda>_. \<lparr>calls = 0, rows = 0, usage = 0\<rparr>),
     kind_time = (\<lambda>_. \<lparr>total_time = 0, min_time = 0, max_time = 0, mean_time = 0,
                        sum_var_time = 0\<rparr>)\<rparr>"

text \<open>
  \<^verbatim>\<open>entry_alloc\<close>: the result is \<open>False\<close> for \<^verbatim>\<open>NULL\<close> and \<open>True\<close> for a pointer to
  the entry stored under \<open>key\<close>.
\<close>

definition entry_alloc ::
  "config \<Rightarrow> pgssHashKey \<Rightarrow> int \<Rightarrow> bool \<Rightarrow> pgsm_state \<Rightarrow> pgsm_error + bool \<times> pgsm_state"
where
  "entry_alloc c key enc sticky g =
     (let b = current_wbucket (pgss g) in
      if PGSM_MAX_BUCKETS c = 0 then Inl DivisionByZero
      else if bucket_entry (pgss g) b \<ge> PGSM_MAX c div PGSM_MAX_BUCKETS c then
        Inr (False, g\<lparr>pgss := (pgss g)\<lparr>bucket_overflow :=
                        (bucket_overflow (pgss g))(b := bucket_overflow (pgss g) b + 1)\<rparr>\<rparr>)
      else if length (pgss_hash g) \<ge> PGSM_MAX c then Inr (False, g)
      else
        (case map_of (pgss_hash g) key of
           Some e \<Rightarrow> Inr (True, g)
         | None \<Rightarrow>
             Inr (True,
               g\<lparr>pgss := (pgss g)\<lparr>bucket_entry :=
                         (bucket_entry (pgss g))(b := bucket_entry (pgss g) b + 1)\<rparr>,
                 pgss_hash := pgss_hash g @
                   [(key, \<lparr>counters = zero_Counters\<lparr>kind_calls := (kind_calls zero_Counters)
                             (False := (kind_calls zero_Counters False)
                                \<lparr>usage := (if sticky then cur_median_usage (pgss g)
                                            else USAGE_INIT c)\<rparr>)\<rparr>,
                           encoding = enc\<rparr>)]\<rparr>)))"

text \<open>
  \<^verbatim>\<open>entry_dealloc(int bucket)\<close>. The two scans collect the victims, the two \<^verbatim>\<open>for\<close>
  loops remove each under its own key. For a negative \<open>bucket\<close> the first statement,
  \<^verbatim>\<open>pgss->bucket_entry[bucket] = 0\<close>, writes in front of the array.
\<close>

definition entry_dealloc :: "int \<Rightarrow> pgsm_state \<Rightarrow> pgsm_error + pgsm_state" where
  "entry_dealloc bucket g =
     (if bucket < 0 then Inl OutOfBounds
      else
        let g1 = g\<lparr>pgss := (pgss g)\<lparr>bucket_entry := (bucket_entry (pgss g))(nat bucket := 0)\<rparr>\<rparr>;
            entries = filter (\<lambda>(k, e). int (bucket_id k) = bucket \<or> bucket < 0) (pgss_hash g1);
            g2 = g1\<lparr>pgss_hash := fold (\<lambda>(k, e) tab. hash_remove tab k) entries (pgss_hash g1)\<rparr>;
            agg_entries = filter (\<lambda>(k, e). int (agg_bucket_id k) = bucket \<or> bucket < 0)
                            (pgss_agghash g2)
        in Inr (g2\<lparr>pgss_agghash :=
                  fold (\<lambda>(k, e) tab. hash_remove tab k) agg_entries (pgss_agghash g2)\<rparr>))"

text \<open>
  \<^verbatim>\<open>get_next_wbucket\<close>. \<open>current_usec\<close> is what \<^verbatim>\<open>gettimeofday\<close> gives (seconds),
  \<open>ts\<close> what \<^verbatim>\<open>GetCurrentTimestamp\<close> gives. The subtraction is one of \<^verbatim>\<open>uint64\<close>.
\<close>

definition get_next_wbucket ::
  "config \<Rightarrow> nat \<Rightarrow> nat \<Rightarrow> pgsm_state \<Rightarrow> pgsm_error + nat \<times> pgsm_state"
where
  "get_next_wbucket c current_usec ts g =
     (if (current_usec + 2 ^ 64 - prev_bucket_usec (pgss g)) mod 2 ^ 64 > PGSM_BUCKET_TIME c then
        let bucket_id0 = (current_wbucket (pgss g) + 1) mod 2 ^ 64;
            b = (if bucket_id0 = PGSM_MAX_BUCKETS c then 0 else bucket_id0)
        in case entry_dealloc (int_of_uint64 b) g of
             Inl e \<Rightarrow> Inl e
           | Inr g1 \<Rightarrow>
               let g2 = g1\<lparr>pgss := (pgss g1)\<lparr>query_fifo :=
                            (query_fifo (pgss g1))(b := \<lparr>head = 0, tail = 0\<rparr>)\<rparr>\<rparr>;
                   g3 = g2\<lparr>pgss := (pgss g2)\<lparr>prev_bucket_usec := current_usec\<rparr>\<rparr>
               in (case map_of (pgss_buckethash g3) b of
                     None \<Rightarrow> Inl NullPointer
                   | Some be \<Rightarrow>
                       Inr (b, g3\<lparr>pgss_buckethash :=
                              hash_update (pgss_buckethash g3) b (\<lambda>be. be\<lparr>current_time := ts\<rparr>)\<rparr>))
      else Inr (current_wbucket (pgss g), g))"

text \<open>
  \<^verbatim>\<open>pgss_store\<close>, lines 907 to 913: the bucket of the key, and the switch of the current
  bucket. The result carries the bucket id and the local \<^verbatim>\<open>reset\<close>.
\<close>

definition pgss_store_bucket ::
  "config \<Rightarrow> nat \<Rightarrow> nat \<Rightarrow> pgsm_state \<Rightarrow> pgsm_error + nat \<times> bool \<times> pgsm_state"
where
  "pgss_store_bucket c current_usec ts g =
     (case get_next_wbucket c current_usec ts g of
        Inl e \<Rightarrow> Inl e
      | Inr (b, g1) \<Rightarrow>
          if b \<noteq> current_wbucket (pgss g1)
          then Inr (b, True, g1\<lparr>pgss := (pgss g1)\<lparr>current_wbucket := b\<rparr>\<rparr>)
          else Inr (b, False, g1))"

text \<open>\<^verbatim>\<open>agg_entry_alloc\<close> and \<^verbatim>\<open>update_agg_counters\<close>.\<close>

definition update_agg_counters :: "nat \<Rightarrow> uint64 \<Rightarrow> nat \<Rightarrow> AGG_KEY \<Rightarrow> pgsm_state \<Rightarrow> pgsm_state" where
  "update_agg_counters bucket qid ident ty g =
     (let key = \<lparr>agg_id = ident, agg_type = ty, agg_queryid = qid, agg_bucket_id = bucket\<rparr>;
          tab = (case map_of (pgss_agghash g) key of
                   None \<Rightarrow> pgss_agghash g @ [(key, \<lparr>total_calls = 0\<rparr>)]
                 | Some e \<Rightarrow> pgss_agghash g)
      in g\<lparr>pgss_agghash := hash_update tab key (\<lambda>e. e\<lparr>total_calls := total_calls e + 1\<rparr>)\<rparr>)"

text \<open>
  \<^verbatim>\<open>pgss_store\<close>, lines 973 to 1002: the call count and the timing statistics of one
  kind, with Welford's update of the mean and of the sum of squared deviations.
\<close>

definition update_calls_time :: "config \<Rightarrow> bool \<Rightarrow> real \<Rightarrow> Counters \<Rightarrow> Counters" where
  "update_calls_time c kind t cs =
     (let cl0 = kind_calls cs kind;
          cl1 = (if calls cl0 = 0 then cl0\<lparr>usage := USAGE_INIT c\<rparr> else cl0);
          cl2 = cl1\<lparr>calls := calls cl1 + 1\<rparr>;
          tm0 = kind_time cs kind;
          tm1 = tm0\<lparr>total_time := total_time tm0 + t\<rparr>;
          tm2 = (if calls cl2 = 1 then tm1\<lparr>min_time := t, max_time := t, mean_time := t\<rparr>
                 else
                   let old_mean = mean_time tm1;
                       tm3 = tm1\<lparr>mean_time := mean_time tm1 + (t - old_mean) / real (calls cl2)\<rparr>;
                       tm4 = tm3\<lparr>sum_var_time :=
                                sum_var_time tm3 + (t - old_mean) * (t - mean_time tm3)\<rparr>;
                       tm5 = (if min_time tm4 > t then tm4\<lparr>min_time := t\<rparr> else tm4)
                   in (if max_time tm5 < t then tm5\<lparr>max_time := t\<rparr> else tm5))
      in cs\<lparr>kind_calls := (kind_calls cs)(kind := cl2), kind_time := (kind_time cs)(kind := tm2)\<rparr>)"

text \<open>
  \<^verbatim>\<open>pgss_store\<close>, lines 1004 to 1013: the response-time histogram of the bucket. The
  \<^verbatim>\<open>for\<close> loop with its \<^verbatim>\<open>break\<close> is the search for the first index below
  \<open>MAX_RESPONSE_BUCKET - 1\<close> whose bound exceeds the duration. \<^verbatim>\<open>resp_calls\<close> has
  \<open>MAX_RESPONSE_BUCKET\<close> cells.
\<close>

definition update_resp_calls :: "config \<Rightarrow> real \<Rightarrow> (nat \<Rightarrow> nat) \<Rightarrow> pgsm_error + (nat \<Rightarrow> nat)" where
  "update_resp_calls c t h =
     (let h1 = (case find (\<lambda>i. t < real_of_int (PGSM_RESPOSE_TIME_LOWER_BOUND c
                                      + PGSM_RESPOSE_TIME_STEP c * int i))
                      [0..<MAX_RESPONSE_BUCKET c - 1] of
                  Some i \<Rightarrow> h(i := h i + 1)
                | None \<Rightarrow> h)
      in if t > real_of_int (PGSM_RESPOSE_TIME_LOWER_BOUND c
                   + PGSM_RESPOSE_TIME_STEP c * int (MAX_RESPONSE_BUCKET c))
         then (if MAX_RESPONSE_BUCKET c = 0 then Inl OutOfBounds
               else Inr (h1(MAX_RESPONSE_BUCKET c - 1 := h1 (MAX_RESPONSE_BUCKET c - 1) + 1)))
         else Inr h1)"

text \<open>
  Whether lines 1004 to 1013 reach one of their two increments, which are the only places
  where \<^verbatim>\<open>pgssBucketEntries[entry->key.bucket_id]\<close> is dereferenced: the loop finds an
  index, or the test after the loop holds.
\<close>

definition resp_calls_touched :: "config \<Rightarrow> real \<Rightarrow> bool" where
  "resp_calls_touched c t =
     (case find (\<lambda>i. t < real_of_int (PGSM_RESPOSE_TIME_LOWER_BOUND c
                                + PGSM_RESPOSE_TIME_STEP c * int i))
                [0..<MAX_RESPONSE_BUCKET c - 1] of
        Some i \<Rightarrow> True
      | None \<Rightarrow> t > real_of_int (PGSM_RESPOSE_TIME_LOWER_BOUND c
                         + PGSM_RESPOSE_TIME_STEP c * int (MAX_RESPONSE_BUCKET c)))"

text \<open>
  \<^verbatim>\<open>pgss_store\<close>, lines 955 to 1035: the update of the entry under its spinlock, run
  when \<^verbatim>\<open>jstate\<close> is \<^verbatim>\<open>NULL\<close>. \<open>addr\<close> is what \<^verbatim>\<open>pg_get_client_addr\<close> gives.
  A bucket without an entry in the bucket table (\<^verbatim>\<open>pgssBucketEntries[b]\<close> is
  \<^verbatim>\<open>NULL\<close>) is an error only where an increment of the histogram is reached.
\<close>

definition pgss_store_counters ::
  "config \<Rightarrow> pgssHashKey \<Rightarrow> bool \<Rightarrow> real \<Rightarrow> nat \<Rightarrow> bool \<Rightarrow> nat \<Rightarrow> pgsm_state
     \<Rightarrow> pgsm_error + pgsm_state"
where
  "pgss_store_counters c key kind t nrows reset addr g =
     (let g1 = (if reset
                then g\<lparr>pgss_hash := hash_update (pgss_hash g) key
                                       (\<lambda>e. e\<lparr>counters := zero_Counters\<rparr>)\<rparr>
                else g);
          g2 = update_agg_counters (bucket_id key) (queryid key) (dbid key) AGG_KEY_DATABASE g1;
          g3 = update_agg_counters (bucket_id key) (queryid key) (userid key) AGG_KEY_USER g2;
          g4 = update_agg_counters (bucket_id key) (queryid key) addr AGG_KEY_HOST g3;
          g5 = g4\<lparr>pgss_hash := hash_update (pgss_hash g4) key
                                  (\<lambda>e. e\<lparr>counters := update_calls_time c kind t (counters e)\<rparr>)\<rparr>
      in case (case map_of (pgss_buckethash g5) (bucket_id key) of
                 None \<Rightarrow> if resp_calls_touched c t then Inl NullPointer else Inr g5
               | Some be \<Rightarrow>
                   (case update_resp_calls c t (resp_calls be) of
                      Inl e \<Rightarrow> Inl e
                    | Inr h \<Rightarrow>
                        Inr (g5\<lparr>pgss_buckethash :=
                               hash_update (pgss_buckethash g5) (bucket_id key)
                                 (\<lambda>be. be\<lparr>resp_calls := h\<rparr>)\<rparr>)))
         of
           Inl e \<Rightarrow> Inl e
         | Inr g6 \<Rightarrow>
             Inr (g6\<lparr>pgss_hash := hash_update (pgss_hash g6) key
                   (\<lambda>e. e\<lparr>counters := (counters e)\<lparr>kind_calls := (kind_calls (counters e))
                      (kind := (kind_calls (counters e) kind)
                         \<lparr>rows := rows (kind_calls (counters e) kind) + nrows,
                          usage := usage (kind_calls (counters e) kind) + USAGE_EXEC c t\<rparr>)\<rparr>\<rparr>)\<rparr>))"

text \<open>
  \<^verbatim>\<open>pgss_store\<close> from the set-up of the key (line 903) on; \<open>query\<close> and \<open>query_len\<close>
  are the statement after the trimming of white space, \<open>qid\<close> the query id after the
  hashing of utility statements. \<open>jstate\<close> is \<open>None\<close> for \<^verbatim>\<open>NULL\<close>, and otherwise holds
  the text and the length that \<^verbatim>\<open>generate_normalized_query\<close> returns for it.
\<close>

record store_args =
  a_userid :: nat
  a_dbid :: nat
  a_queryId :: uint64
  a_query :: "byte list"
  a_query_len :: nat
  a_kind :: bool
  a_total_time :: real
  a_rows :: nat
  a_jstate :: "(byte list \<times> nat) option"
  a_encoding :: int
  a_current_usec :: nat
  a_timestamp :: nat
  a_client_addr :: nat

definition pgss_store_entry ::
  "config \<Rightarrow> store_args \<Rightarrow> pgssHashKey \<Rightarrow> bool \<Rightarrow> byte list option \<Rightarrow> nat \<Rightarrow> pgsm_state
     \<Rightarrow> (pgsm_error + pgsm_state) option"
where
  "pgss_store_entry c a key reset norm_query query_len g =
     (case store_query c (a_queryId a)
             (if PGSM_NORMALIZED_QUERY c
              then (case norm_query of Some nq \<Rightarrow> nq | None \<Rightarrow> a_query a)
              else a_query a)
             query_len g of
        None \<Rightarrow> None
      | Some (Inl e) \<Rightarrow> Some (Inl e)
      | Some (Inr g1) \<Rightarrow>
          if a_jstate a = None
          then Some (pgss_store_counters c key (a_kind a) (a_total_time a) (a_rows a) reset
                       (a_client_addr a) g1)
          else Some (Inr g1))"

definition pgss_store :: "config \<Rightarrow> store_args \<Rightarrow> pgsm_state \<Rightarrow> (pgsm_error + pgsm_state) option" where
  "pgss_store c a g =
     (case pgss_store_bucket c (a_current_usec a) (a_timestamp a) g of
        Inl e \<Rightarrow> Some (Inl e)
      | Inr (b, reset, g1) \<Rightarrow>
          let key = \<lparr>userid = a_userid a, dbid = a_dbid a, queryid = a_queryId a, bucket_id = b\<rparr>
          in case map_of (pgss_hash g1) key of
               Some e \<Rightarrow> pgss_store_entry c a key reset None (a_query_len a) g1
             | None \<Rightarrow>
                 (case entry_alloc c key (a_encoding a) (a_jstate a \<noteq> None) g1 of
                    Inl e \<Rightarrow> Some (Inl e)
                  | Inr (False, g2) \<Rightarrow> Some (Inr g2)
                  | Inr (True, g2) \<Rightarrow>
                      (case a_jstate a of
                         None \<Rightarrow> pgss_store_entry c a key reset None (a_query_len a) g2
                       | Some (nq, nl) \<Rightarrow> pgss_store_entry c a key reset (Some nq) nl g2)))"

text \<open>
  \<^verbatim>\<open>entry_reset\<close>. Each \<^verbatim>\<open>while\<close> loop ends when \<^verbatim>\<open>hash_seq_search\<close> returns
  \<^verbatim>\<open>NULL\<close>, so after the second loop \<^verbatim>\<open>dbentry\<close> is \<^verbatim>\<open>NULL\<close>; \<open>reset_agg_loop\<close>
  returns the table and that last value of \<^verbatim>\<open>dbentry\<close> (a pointer is the key of the
  entry it addresses). The third and the fourth loop pass \<^verbatim>\<open>&dbentry->key\<close> to
  \<^verbatim>\<open>hash_search\<close> for every entry they visit.
\<close>

fun reset_loop :: "('k \<times> 'v) list \<Rightarrow> ('k \<times> 'v) list \<Rightarrow> ('k \<times> 'v) list" where
  "reset_loop [] tab = tab"
| "reset_loop ((k, e) # rest) tab = reset_loop rest (hash_remove tab k)"

fun reset_agg_loop ::
  "('k \<times> 'v) list \<Rightarrow> ('k \<times> 'v) list \<Rightarrow> ('k \<times> 'v) list \<times> 'k option" where
  "reset_agg_loop [] tab = (tab, None)"
| "reset_agg_loop ((k, e) # rest) tab = reset_agg_loop rest (hash_remove tab k)"

fun reset_loop_dbentry ::
  "'a option \<Rightarrow> ('k \<times> 'v) list \<Rightarrow> ('k \<times> 'v) list \<Rightarrow> pgsm_error + ('k \<times> 'v) list" where
  "reset_loop_dbentry dbentry [] tab = Inr tab"
| "reset_loop_dbentry None ((k, e) # rest) tab = Inl NullPointer"
| "reset_loop_dbentry (Some dk) ((k, e) # rest) tab = reset_loop_dbentry (Some dk) rest tab"

definition entry_reset :: "pgsm_state \<Rightarrow> pgsm_error + pgsm_state" where
  "entry_reset g =
     (let g1 = g\<lparr>pgss_hash := reset_loop (pgss_hash g) (pgss_hash g)\<rparr>;
          (agg, dbentry) = reset_agg_loop (pgss_agghash g1) (pgss_agghash g1);
          g2 = g1\<lparr>pgss_agghash := agg\<rparr>
      in case reset_loop_dbentry dbentry (pgss_buckethash g2) (pgss_buckethash g2) of
           Inl e \<Rightarrow> Inl e
         | Inr btab \<Rightarrow>
             (case reset_loop_dbentry dbentry (pgss_waiteventshash g2) (pgss_waiteventshash g2) of
                Inl e \<Rightarrow> Inl e
              | Inr wtab \<Rightarrow>
                  Inr (g2\<lparr>pgss_buckethash := btab, pgss_waiteventshash := wtab,
                         pgss := (pgss g2)\<lparr>current_wbucket := 0\<rparr>\<rparr>)))"

text \<open>
  A sequence of measurements of one kind, applied in order to the counters of one entry;
  and the direct two-pass mean and sum of squared deviations they are compared with.
\<close>

definition record_times :: "config \<Rightarrow> bool \<Rightarrow> real list \<Rightarrow> Counters \<Rightarrow> Counters" where
  "record_times c kind ts cs = foldl (\<lambda>cs t. update_calls_time c kind t cs) cs ts"

definition two_pass_mean :: "real list \<Rightarrow> real" where
  "two_pass_mean ts = sum_list ts / real (length ts)"

definition two_pass_sum_var :: "real list \<Rightarrow> real" where
  "two_pass_sum_var ts = sum_list (map (\<lambda>t. (t - two_pass_mean ts) ^ 2) ts)"

text \<open>
  A state for the two-bucket configuration: bucket 0 is current and holds its share of
  two entries, bucket 1 holds one entry, one rollup entry, one text and five responses in
  the first cell of its histogram.
\<close>

definition ex_key :: "nat \<Rightarrow> uint64 \<Rightarrow> nat \<Rightarrow> pgssHashKey" where
  "ex_key u q b = \<lparr>userid = u, dbid = 1, queryid = q, bucket_id = b\<rparr>"

definition ex_agg_key :: "uint64 \<Rightarrow> nat \<Rightarrow> pgssAggHashKey" where
  "ex_agg_key q b = \<lparr>agg_id = 1, agg_type = AGG_KEY_DATABASE, agg_queryid = q, agg_bucket_id = b\<rparr>"

definition ex_entry :: pgssEntry where
  "ex_entry = \<lparr>counters = zero_Counters, encoding = 6\<rparr>"

definition ex_shared :: pgssSharedState where
  "ex_shared = \<lparr>cur_median_usage = 0, current_wbucket = 0, prev_bucket_usec = 100,
     bucket_overflow = (\<lambda>_. 0), bucket_entry = (\<lambda>_. 0)(0 := 2, 1 := 1),
     query_fifo = (\<lambda>_. \<lparr>head = 0, tail = 0\<rparr>)(1 := \<lparr>head = 20, tail = 0\<rparr>)\<rparr>"

definition ex_full :: pgsm_state where
  "ex_full = \<lparr>pgss = ex_shared,
     pgss_qbuf = (\<lambda>_. replicate 40 0)(1 := ex_rec1 @ replicate 20 0),
     pgss_hash = [(ex_key 10 1 0, ex_entry), (ex_key 10 1 1, ex_entry), (ex_key 10 2 0, ex_entry)],
     pgss_agghash = [(ex_agg_key 1 0, \<lparr>total_calls = 2\<rparr>), (ex_agg_key 1 1, \<lparr>total_calls = 5\<rparr>)],
     pgss_buckethash = [(0, \<lparr>current_time = 0, resp_calls = (\<lambda>_. 0)\<rparr>),
                        (1, \<lparr>current_time = 0, resp_calls = (\<lambda>_. 0)(0 := 5)\<rparr>)],
     pgss_waiteventshash = [(0, \<lparr>we_queryid = 0, pid = 0, wait_event_info = 0\<rparr>)],
     elog = []\<rparr>"

definition ex_args :: store_args where
  "ex_args = \<lparr>a_userid = 10, a_dbid = 1, a_queryId = 7, a_query = [97, 98, 99, 100],
     a_query_len = 4, a_kind = True, a_total_time = 3, a_rows = 1, a_jstate = None,
     a_encoding = 6, a_current_usec = 120, a_timestamp = 777, a_client_addr = 2130706433\<rparr>"



subsection \<open>The jumble accumulator\<close>

text \<open>
  \<open>JUMBLE_SIZE\<close> belongs to the missing header; \<open>hash_any_extended\<close> is PostgreSQL's hash
  of a byte string with seed 0.
\<close>

record jumble_config =
  JUMBLE_SIZE :: nat
  hash_any_extended :: "byte list \<Rightarrow> uint64"

text \<open>
  \<^verbatim>\<open>pgssJumbleState\<close>. \<open>jumble\<close> is the whole buffer that \<^verbatim>\<open>get_query_id\<close> allocates,
  \<open>clocations\<close> the part of the location array written so far, as pairs of location and
  length. \<open>jmessages\<close> is not a member of the C structure: it collects what \<^verbatim>\<open>elog\<close>
  emits below level \<^verbatim>\<open>ERROR\<close> during the walk, with the number printed.
\<close>

record pgssJumbleState =
  jumble :: "byte list"
  jumble_len :: nat
  clocations :: "(int \<times> int) list"
  clocations_buf_size :: nat
  clocations_count :: nat
  highest_extern_param_id :: int
  jmessages :: "(elevel \<times> string \<times> int) list"

text \<open>
  The \<^verbatim>\<open>while\<close> loop of \<^verbatim>\<open>AppendJumble\<close>; \<open>item\<close> holds the \<^verbatim>\<open>size\<close> bytes still to
  append. \<^verbatim>\<open>JUMBLE_SIZE - jumble_len\<close> is a subtraction of \<^verbatim>\<open>Size\<close>, \<open>Size_minus\<close>. With a
  \<open>JUMBLE_SIZE\<close> of 8 a full buffer makes every round append nothing and the loop does
  not end.
\<close>

definition Size_minus :: "nat \<Rightarrow> nat \<Rightarrow> nat" where
  "Size_minus a b = (a + 2 ^ 64 - b) mod 2 ^ 64"

partial_function (option) AppendJumble_loop ::
  "nat \<Rightarrow> (byte list \<Rightarrow> uint64) \<Rightarrow> byte list \<Rightarrow> nat \<Rightarrow> byte list
     \<Rightarrow> (pgsm_error + byte list \<times> nat) option"
where
  "AppendJumble_loop js_size H jbuf jlen item =
     (if length item > 0 then
        (case (if jlen \<ge> js_size then
                 (case mem_read jbuf 0 js_size of
                    None \<Rightarrow> Inl OutOfBounds
                  | Some bs \<Rightarrow>
                      (case mem_write jbuf 0 (bytes_of_uint64 (H bs)) of
                         None \<Rightarrow> Inl OutOfBounds
                       | Some jbuf1 \<Rightarrow> Inr (jbuf1, 8)))
               else Inr (jbuf, jlen)) of
           Inl e \<Rightarrow> Some (Inl e)
         | Inr (jbuf1, jlen1) \<Rightarrow>
             (case mem_write jbuf1 jlen1
                     (take (min (length item) (Size_minus js_size jlen1)) item) of
                None \<Rightarrow> Some (Inl OutOfBounds)
              | Some jbuf2 \<Rightarrow>
                  AppendJumble_loop js_size H jbuf2
                    (jlen1 + min (length item) (Size_minus js_size jlen1))
                    (drop (min (length item) (Size_minus js_size jlen1)) item)))
      else Some (Inr (jbuf, jlen)))"

declare AppendJumble_loop.simps [code]

definition AppendJumble ::
  "'a jumble_config_scheme \<Rightarrow> pgssJumbleState \<Rightarrow> byte list
     \<Rightarrow> (pgsm_error + pgssJumbleState) option"
where
  "AppendJumble e jstate item =
     (case AppendJumble_loop (JUMBLE_SIZE e) (hash_any_extended e) (jumble jstate)
             (jumble_len jstate) item of
        None \<Rightarrow> None
      | Some (Inl err) \<Rightarrow> Some (Inl err)
      | Some (Inr (jbuf, jlen)) \<Rightarrow> Some (Inr (jstate\<lparr>jumble := jbuf, jumble_len := jlen\<rparr>)))"

text \<open>
  The accumulator read byte by byte: the bytes that count are the first \<open>jumble_len\<close>
  of the buffer; a byte that arrives at a full accumulator first replaces its contents by
  the eight bytes of their hash.
\<close>

definition jumble_bytes :: "pgssJumbleState \<Rightarrow> byte list" where
  "jumble_bytes jstate = take (jumble_len jstate) (jumble jstate)"

fun absorb :: "nat \<Rightarrow> (byte list \<Rightarrow> uint64) \<Rightarrow> byte list \<Rightarrow> byte list \<Rightarrow> byte list" where
  "absorb js_size H acc [] = acc"
| "absorb js_size H acc (x # xs) =
     absorb js_size H ((if length acc \<ge> js_size then bytes_of_uint64 (H acc) else acc) @ [x]) xs"

text \<open>What the first byte of a chunk finds in the accumulator.\<close>

definition pre_fold :: "nat \<Rightarrow> (byte list \<Rightarrow> uint64) \<Rightarrow> byte list \<Rightarrow> byte list" where
  "pre_fold n H acc = (if length acc \<ge> n then bytes_of_uint64 (H acc) else acc)"

definition ex_jumble_config :: jumble_config where
  "ex_jumble_config = \<lparr>JUMBLE_SIZE = 12, hash_any_extended = (\<lambda>bs. of_nat (length bs))\<rparr>"

definition ex_jstate :: pgssJumbleState where
  "ex_jstate = \<lparr>jumble = replicate 12 0, jumble_len = 0, clocations = [],
     clocations_buf_size = 32, clocations_count = 0, highest_extern_param_id = 0,
     jmessages = []\<rparr>"

text \<open>A sequence of appends, as a walk of a tree makes them.\<close>

fun AppendJumble_all ::
  "'a jumble_config_scheme \<Rightarrow> pgssJumbleState \<Rightarrow> byte list list
     \<Rightarrow> (pgsm_error + pgssJumbleState) option"
where
  "AppendJumble_all e jstate [] = Some (Inr jstate)"
| "AppendJumble_all e jstate (item # items) =
     (case AppendJumble e jstate item of
        None \<Rightarrow> None
      | Some (Inl err) \<Rightarrow> Some (Inl err)
      | Some (Inr jstate') \<Rightarrow> AppendJumble_all e jstate' items)"

definition jumble_ok :: "'a jumble_config_scheme \<Rightarrow> pgssJumbleState \<Rightarrow> bool" where
  "jumble_ok e jstate \<longleftrightarrow>
     length (jumble jstate) = JUMBLE_SIZE e \<and> jumble_len jstate \<le> JUMBLE_SIZE e"

subsection \<open>The fingerprint engine\<close>






















section \<open>Properties\<close>

section \<open>The text ring: lemmas\<close>

lemma length_bytes_of_uint64 [simp]: "length (bytes_of_uint64 w) = 8"
  by (simp add: bytes_of_uint64_def)

lemma ucast_byte_take_bit: "(ucast (ucast (w::uint64) :: byte) :: uint64) = take_bit 8 w"
  by (rule bit_word_eqI) (auto simp: bit_simps)

lemma or_take_push: "or (take_bit 8 (w::uint64)) (push_bit 8 (take_bit n (drop_bit 8 w))) = take_bit (8 + n) w"
  by (rule bit_word_eqI) (auto simp: bit_simps)

lemma uint64_of_bytes_map:
  "uint64_of_bytes (map (\<lambda>i. ucast (drop_bit (8 * i) w)) [k..<k+n]) = take_bit (8 * n) (drop_bit (8 * k) (w::uint64))"
proof (induction n arbitrary: k)
  case 0
  then show ?case by simp
next
  case (Suc n)
  have "[k..<k + Suc n] = k # [Suc k..<Suc k + n]"
    by (simp add: upt_rec)
  then show ?case
    using Suc.IH[of "Suc k"] or_take_push[of "drop_bit (8 * k) w" "8 * n"]
    by (simp add: ucast_byte_take_bit drop_bit_drop_bit add.commute)
qed

lemma uint64_of_bytes_of_uint64 [simp]: "uint64_of_bytes (bytes_of_uint64 w) = w"
  using uint64_of_bytes_map[of w 0 8] by (simp add: bytes_of_uint64_def take_bit_word_eq_self)

lemma mem_read_at:
  assumes "drop p buf = A @ B @ C" "B \<noteq> []"
  shows "mem_read buf (p + length A) (length B) = Some B"
proof -
  have "length (drop p buf) = length A + length B + length C"
    using assms(1) by simp
  moreover have "length B > 0" using assms(2) by simp
  ultimately have le: "p + length A + length B \<le> length buf" by (cases "p \<le> length buf") auto
  have "drop (p + length A) buf = drop (length A) (drop p buf)"
    by (simp add: add.commute)
  also have "\<dots> = B @ C" using assms(1) by simp
  finally show ?thesis using le by (simp add: mem_read_def)
qed

lemma locate_query_loop_scan:
  assumes "drop p buf = concat (map enc_record recs) @ rest"
    and "fhead = p + length (concat (map enc_record recs))"
    and "fhead < bsize" and "bsize < 2 ^ 64"
    and "\<forall>(i, t) \<in> set recs. t \<noteq> [] \<and> (case query of None \<Rightarrow> True | Some cap \<Rightarrow> length t + 1 \<le> cap)"
  shows "locate_query_loop bsize buf fhead qid query out p =
           Some (Inr (scan_records qid (query \<noteq> None) out recs))"
  using assms
proof (induction recs arbitrary: p out)
  case Nil
  then show ?case by (subst locate_query_loop.simps) simp
next
  case (Cons r rs)
  obtain i t where r: "r = (i, t)" by (cases r)
  let ?R = "concat (map enc_record rs)"
  let ?n = "length t"
  have tne: "t \<noteq> []" and cap: "(case query of None \<Rightarrow> True | Some cap \<Rightarrow> ?n + 1 \<le> cap)"
    using Cons.prems(5) r by auto
  have dp: "drop p buf = bytes_of_uint64 i @ bytes_of_uint64 (of_nat ?n) @ t @ ?R @ rest"
    using Cons.prems(1) r by simp
  have fh: "fhead = p + 16 + ?n + length ?R"
    using Cons.prems(2) r by simp
  have nlt: "?n < 2 ^ 64" using fh Cons.prems(3,4) by simp
  have un: "unat (of_nat ?n :: uint64) = ?n"
    using nlt by (simp add: unat_of_nat take_bit_nat_eq_self)
  have r1: "mem_read buf p 8 = Some (bytes_of_uint64 i)"
    using mem_read_at[of p buf "[]" "bytes_of_uint64 i" "bytes_of_uint64 (of_nat ?n) @ t @ ?R @ rest"] dp
    by (metis append_Nil length_bytes_of_uint64 list.size(3) add_0_right length_0_conv zero_neq_numeral)
  have r2: "mem_read buf (p + 8) 8 = Some (bytes_of_uint64 (of_nat ?n))"
    using mem_read_at[of p buf "bytes_of_uint64 i" "bytes_of_uint64 (of_nat ?n)" "t @ ?R @ rest"] dp
    by (metis length_bytes_of_uint64 length_0_conv zero_neq_numeral)
  have r3: "mem_read buf (p + 16) ?n = Some t"
    using mem_read_at[of p buf "bytes_of_uint64 i @ bytes_of_uint64 (of_nat ?n)" t "?R @ rest"] dp tne
    by simp
  have ne: "fhead \<noteq> p" using fh by simp
  have pos: "((p + (16 + ?n)) mod 2 ^ 64) mod bsize = p + 16 + ?n"
    using fh Cons.prems(3,4) by simp
  have dp': "drop (p + 16 + ?n) buf = ?R @ rest"
  proof -
    have "drop (p + 16 + ?n) buf = drop (16 + ?n) (drop p buf)"
      by (simp add: add.commute add.left_commute)
    then show ?thesis using dp by simp
  qed
  have IH: "\<And>out'. locate_query_loop bsize buf fhead qid query out' (p + 16 + ?n) =
           Some (Inr (scan_records qid (query \<noteq> None) out' rs))"
    using Cons.IH[OF dp' _ Cons.prems(3,4)] fh Cons.prems(5) by simp
  have bs: "bsize \<noteq> 0" using Cons.prems(3) by simp
  show ?case
  proof (cases query)
    case None
    then show ?thesis
      unfolding r
      apply (subst locate_query_loop.simps)
      using ne r1 r2 un tne pos IH bs by simp
  next
    case (Some cp)
    then have "?n + 1 \<le> cp" using cap by simp
    then show ?thesis
      unfolding r
      apply (subst locate_query_loop.simps)
      using Some ne r1 r2 r3 un tne pos IH bs by simp
  qed
qed


lemma uint64_of_int_nonneg: "0 \<le> i \<Longrightarrow> i < 2 ^ 31 \<Longrightarrow> uint64_of_int i = nat i"
  by (simp add: uint64_of_int_def)

lemma int_of_uint64_small: "n < 2 ^ 31 \<Longrightarrow> int_of_uint64 n = int n"
proof -
  assume a: "n < 2 ^ 31"
  then have "int n < 2 ^ 31" by (metis of_nat_less_iff of_nat_numeral of_nat_power)
  then show ?thesis by (simp add: int_of_uint64_def Let_def)
qed

lemma locate_query_on_ring:
  assumes "ring_records c g b recs"
    and "\<forall>(i, t) \<in> set recs. (case query of None \<Rightarrow> True | Some cap \<Rightarrow> length t + 1 \<le> cap)"
  shows "locate_query c g b qid query out =
           Some (Inr (scan_records qid (query \<noteq> None) out recs))"
proof -
  let ?h = "nat (FIFO_HEAD g b)"
  let ?buf = "pgss_qbuf g b"
  have h31: "FIFO_HEAD g b < 2 ^ 31" and h0: "0 \<le> FIFO_HEAD g b"
    and bs: "query_buf_size_bucket c < 2 ^ 31"
    and hl: "?h < query_buf_size_bucket c"
    using assms(1) by (auto simp: ring_records_def)
  have d: "drop 0 ?buf = concat (map enc_record recs) @ drop ?h ?buf"
    using assms(1) by (metis append_take_drop_id drop_0 ring_records_def)
  have len: "length ?buf = query_buf_size_bucket c"
    using assms(1) by (simp add: ring_records_def)
  have tk: "take ?h ?buf = concat (map enc_record recs)"
    using assms(1) by (simp add: ring_records_def)
  have "length (take ?h ?buf) = ?h" using len hl by simp
  then have fh: "?h = 0 + length (concat (map enc_record recs))"
    using arg_cong[OF tk, of length] by simp
  have ne: "\<forall>(i, t) \<in> set recs. t \<noteq> [] \<and> (case query of None \<Rightarrow> True | Some cap \<Rightarrow> length t + 1 \<le> cap)"
    using assms by (auto simp: ring_records_def list_all_iff)
  have b64: "query_buf_size_bucket c < 2 ^ 64"
    using bs by (rule less_trans) simp
  have tl: "uint64_of_int (FIFO_TAIL g b) = 0"
    using assms(1) by (simp add: ring_records_def uint64_of_int_def)
  show ?thesis
    unfolding locate_query_def tl uint64_of_int_nonneg[OF h0 h31]
    by (rule locate_query_loop_scan[OF d fh hl b64 ne])
qed

lemma scan_records_absent:
  "qid \<notin> fst ` set recs \<Longrightarrow> fst (scan_records qid copy out recs) = 0"
  by (induction recs arbitrary: out) auto

lemma scan_records_appended:
  "qid \<notin> fst ` set recs \<Longrightarrow> scan_records qid True out (recs @ [(qid, t)]) = (qid, t)"
  by (induction recs arbitrary: out) auto

lemma mem_write_mid:
  "length A = off \<Longrightarrow> length M = length src \<Longrightarrow> mem_write (A @ M @ Z) off src = Some (A @ src @ Z)"
  by (simp add: mem_write_def)

lemma split_at_front:
  "n \<le> length (xs::'a list) \<Longrightarrow> \<exists>A Z. xs = A @ Z \<and> length A = n"
  by (metis append_take_drop_id length_take min.absorb2)

lemma store_query_appends:
  assumes inv: "ring_records c g b recs"
    and b: "b = current_wbucket (pgss g)"
    and q0: "qid \<noteq> 0" and fresh: "qid \<notin> fst ` set recs"
    and L: "L = min query_len (PGSM_QUERY_MAX_LEN c)"
    and Lq: "L \<le> length query" and Lpos: "0 < L"
    and room: "nat (FIFO_HEAD g b) + L + 16 < query_buf_size_bucket c"
  shows "\<exists>g'. store_query c qid query query_len g = Some (Inr g') \<and>
           ring_records c g' b (recs @ [(qid, take L query)]) \<and>
           current_wbucket (pgss g') = current_wbucket (pgss g) \<and>
           pgss_hash g' = pgss_hash g \<and> elog g' = elog g"
proof -
  let ?h = "nat (FIFO_HEAD g b)"
  let ?buf = "pgss_qbuf g b"
  let ?P = "concat (map enc_record recs)"
  have h0: "0 \<le> FIFO_HEAD g b" and bs: "query_buf_size_bucket c < 2 ^ 31"
    and len: "length ?buf = query_buf_size_bucket c"
    and tk: "take ?h ?buf = ?P" and tl0: "FIFO_TAIL g b = 0"
    and ne: "list_all (\<lambda>(i, t). t \<noteq> []) recs"
    using inv by (auto simp: ring_records_def)
  have h31: "FIFO_HEAD g b < 2 ^ 31" using inv by (auto simp: ring_records_def)
  have loc: "locate_query c g b qid None [] = Some (Inr (scan_records qid False [] recs))"
    using locate_query_on_ring[OF inv, of None qid "[]"] by simp
  have notfound: "fst (scan_records qid False [] recs) \<noteq> qid"
    using scan_records_absent[OF fresh] q0 by simp
  have "length (take ?h ?buf) = ?h" using len room by simp
  then have lenP: "length ?P = ?h" using arg_cong[OF tk, of length] by simp
  obtain Z where bufPZ: "?buf = ?P @ Z" and lenZ: "length Z = query_buf_size_bucket c - ?h"
    using tk len by (metis append_take_drop_id length_drop)
  have "8 \<le> length Z" using lenZ room by simp
  from split_at_front[OF this] obtain Z1 Y1 where Z1: "Z = Z1 @ Y1" "length Z1 = 8"
    by blast
  have "8 \<le> length Y1" using lenZ room Z1 by simp
  from split_at_front[OF this] obtain Z2 Y2 where Z2: "Y1 = Z2 @ Y2" "length Z2 = 8"
    by blast
  have "L \<le> length Y2" using lenZ room Z1 Z2 by simp
  from split_at_front[OF this] obtain Z3 Z4 where Z3: "Y2 = Z3 @ Z4" "length Z3 = L"
    by blast
  have buf: "?buf = ?P @ Z1 @ Z2 @ Z3 @ Z4"
    using bufPZ Z1 Z2 Z3 by simp
  have Lmax: "(if query_len > PGSM_QUERY_MAX_LEN c then PGSM_QUERY_MAX_LEN c else query_len) = L"
    using L by (simp add: min_def)
  have sum31: "?h + L + 16 < 2 ^ 31" using room bs by simp
  have sum64: "?h + L + 16 < (2::nat) ^ 64"
    using sum31 by (rule less_trans) simp
  have next0: "int_of_uint64 ((uint64_of_int (FIFO_HEAD g b) + L + 8 + 8) mod 2 ^ 64) = int (?h + L + 16)"
    using uint64_of_int_nonneg[OF h0 h31] sum64 int_of_uint64_small[OF sum31]
    by (simp add: add.assoc)
  have w1: "mem_write ?buf ?h (bytes_of_uint64 qid) = Some (?P @ bytes_of_uint64 qid @ Z2 @ Z3 @ Z4)"
    unfolding buf using mem_write_mid[of ?P ?h Z1 "bytes_of_uint64 qid" "Z2 @ Z3 @ Z4"] lenP Z1
    by simp
  have w2: "mem_write (?P @ bytes_of_uint64 qid @ Z2 @ Z3 @ Z4) (?h + 8) (bytes_of_uint64 (of_nat L))
              = Some (?P @ bytes_of_uint64 qid @ bytes_of_uint64 (of_nat L) @ Z3 @ Z4)"
    using mem_write_mid[of "?P @ bytes_of_uint64 qid" "?h + 8" Z2 "bytes_of_uint64 (of_nat L)" "Z3 @ Z4"]
      lenP Z2 by simp
  have w3: "mem_write (?P @ bytes_of_uint64 qid @ bytes_of_uint64 (of_nat L) @ Z3 @ Z4) (?h + 8 + 8)
              (take L query)
              = Some (?P @ bytes_of_uint64 qid @ bytes_of_uint64 (of_nat L) @ take L query @ Z4)"
    using mem_write_mid[of "?P @ bytes_of_uint64 qid @ bytes_of_uint64 (of_nat L)" "?h + 8 + 8" Z3
        "take L query" Z4] lenP Z3 Lq by simp
  let ?buf3 = "?P @ bytes_of_uint64 qid @ bytes_of_uint64 (of_nat L) @ take L query @ Z4"
  let ?g' = "g\<lparr>pgss_qbuf := (pgss_qbuf g)(b := ?buf3),
               pgss := (pgss g)\<lparr>query_fifo := (query_fifo (pgss g))
                 (b := (query_fifo (pgss g) b)\<lparr>head := int (?h + L + 16)\<rparr>)\<rparr>\<rparr>"
  have ge: "\<not> int (query_buf_size_bucket c) \<le> int (?h + L + 16)"
    using room by linarith
  have neq: "int (?h + L + 16) \<noteq> FIFO_HEAD g b" using h0 by simp
  have st: "store_query c qid query query_len g = Some (Inr ?g')"
    unfolding store_query_def Let_def b[symmetric] Lmax loc next0
    using notfound h0 Lq w1 w2 w3 ge neq
    by (simp add: split_beta)
  have lenb3: "length ?buf3 = query_buf_size_bucket c"
    using len buf Z1 Z2 Z3 Lq by simp
  have tk3: "take (?h + L + 16) ?buf3 = concat (map enc_record (recs @ [(qid, take L query)]))"
    using lenP Lq by simp
  have sel: "FIFO_TAIL ?g' b = 0" "FIFO_HEAD ?g' b = int (?h + L + 16)" "pgss_qbuf ?g' b = ?buf3"
    using tl0 by simp_all
  have ne': "list_all (\<lambda>(i, t). t \<noteq> []) (recs @ [(qid, take L query)])"
    using ne Lpos Lq by auto
  have hlt: "int (?h + L + 16) < int (query_buf_size_bucket c)"
    using room by linarith
  have h0': "(0::int) \<le> int (?h + L + 16)" by simp
  have "ring_records c ?g' b (recs @ [(qid, take L query)])"
    unfolding ring_records_def sel nat_int
    using h0' hlt bs lenb3 tk3 ne' by blast
  then show ?thesis using st by (intro exI[of _ ?g']) simp
qed


lemmas ex_eval = ex_config_def ex_state_def ex_rec1_def ex_rec2_def store_query_def
  locate_query_def locate_query_loop.simps uint64_of_int_def int_of_uint64_def
  query_buf_size_bucket_def mem_write_def mem_read_def bytes_of_uint64_def upt_rec


subsection \<open>Store, then find\<close>

lemma store_then_locate:
  assumes inv: "ring_records c g (current_wbucket (pgss g)) recs"
    and q0: "qid \<noteq> 0" and fresh: "qid \<notin> fst ` set recs"
    and L: "L = min query_len (PGSM_QUERY_MAX_LEN c)"
    and Lpos: "0 < L" and Lq: "L \<le> length query"
    and room: "nat (FIFO_HEAD g (current_wbucket (pgss g))) + L + 16 < query_buf_size_bucket c"
    and caps: "list_all (\<lambda>(i, t). length t < cap) recs" and cap: "L < cap"
  shows "\<exists>g'. store_query c qid query query_len g = Some (Inr g') \<and>
           ring_records c g' (current_wbucket (pgss g)) (recs @ [(qid, take L query)]) \<and>
           locate_query c g' (current_wbucket (pgss g)) qid (Some cap) out =
             Some (Inr (qid, take L query))"
proof -
  from store_query_appends[OF inv refl q0 fresh L Lq Lpos room]
  obtain g' where st: "store_query c qid query query_len g = Some (Inr g')"
    and inv': "ring_records c g' (current_wbucket (pgss g)) (recs @ [(qid, take L query)])"
    by blast
  have "\<forall>(i, t) \<in> set (recs @ [(qid, take L query)]).
          (case Some cap of None \<Rightarrow> True | Some cp \<Rightarrow> length t + 1 \<le> cp)"
    using caps cap Lq by (auto simp: list_all_iff)
  from locate_query_on_ring[OF inv' this, of qid out]
  have "locate_query c g' (current_wbucket (pgss g)) qid (Some cap) out =
          Some (Inr (qid, take L query))"
    by (simp add: scan_records_appended[OF fresh])
  with st inv' show ?thesis by blast
qed




subsection \<open>Stores that reach the end of the buffer\<close>

text \<open>
  In a well-formed ring a new record is turned away only when the head is 0 and the record
  is at least as long as the whole buffer. With the head elsewhere, a record that ends
  exactly at the end of the buffer is written and the head set to 0, where the tail is;
  a longer one is copied past the end of the buffer.
\<close>

lemma store_query_rejected:
  assumes inv: "ring_records c g b recs"
    and b: "b = current_wbucket (pgss g)"
    and q0: "qid \<noteq> 0" and fresh: "qid \<notin> fst ` set recs"
    and L: "L = min query_len (PGSM_QUERY_MAX_LEN c)"
    and h: "FIFO_HEAD g b = 0"
    and reach: "query_buf_size_bucket c \<le> L + 16"
    and small: "L + 16 < 2 ^ 31"
  shows "store_query c qid query query_len g =
           Some (Inr (g\<lparr>elog := elog g @
                  [(INFO, ''pg_stat_monitor: no space left in shared_buffer'')]\<rparr>))"
proof -
  have loc: "locate_query c g b qid None [] = Some (Inr (scan_records qid False [] recs))"
    using locate_query_on_ring[OF inv, of None qid "[]"] by simp
  have notfound: "fst (scan_records qid False [] recs) \<noteq> qid"
    using scan_records_absent[OF fresh] q0 by simp
  have Lmax: "(if query_len > PGSM_QUERY_MAX_LEN c then PGSM_QUERY_MAX_LEN c else query_len) = L"
    using L by (simp add: min_def)
  have sum64: "L + 16 < (2::nat) ^ 64"
    using small by (rule less_trans) simp
  have u0: "uint64_of_int 0 = 0" by (simp add: uint64_of_int_def)
  have next0: "int_of_uint64 ((uint64_of_int 0 + L + 8 + 8) mod 2 ^ 64) = int (L + 16)"
    using sum64 int_of_uint64_small[OF small] by (simp add: u0 add.assoc)
  have ge: "int (query_buf_size_bucket c) \<le> int (L + 16)"
    using reach by linarith
  show ?thesis
    unfolding store_query_def Let_def b[symmetric] Lmax loc h next0
    using notfound ge by (simp add: split_beta)
qed

lemma store_query_reaching_end:
  assumes inv: "ring_records c g b recs"
    and b: "b = current_wbucket (pgss g)"
    and q0: "qid \<noteq> 0" and fresh: "qid \<notin> fst ` set recs"
    and L: "L = min query_len (PGSM_QUERY_MAX_LEN c)"
    and Lq: "L \<le> length query"
    and hpos: "0 < FIFO_HEAD g b"
    and reach: "query_buf_size_bucket c \<le> nat (FIFO_HEAD g b) + L + 16"
    and small: "nat (FIFO_HEAD g b) + L + 16 < 2 ^ 31"
  shows "(nat (FIFO_HEAD g b) + L + 16 = query_buf_size_bucket c \<longrightarrow>
           (\<exists>g'. store_query c qid query query_len g = Some (Inr g') \<and>
              FIFO_HEAD g' b = 0 \<and> FIFO_TAIL g' b = 0 \<and> elog g' = elog g)) \<and>
         (query_buf_size_bucket c < nat (FIFO_HEAD g b) + L + 16 \<longrightarrow>
            store_query c qid query query_len g = Some (Inl OutOfBounds))"
proof -
  let ?h = "nat (FIFO_HEAD g b)"
  have h0: "0 \<le> FIFO_HEAD g b" and len: "length (pgss_qbuf g b) = query_buf_size_bucket c"
    and tl0: "FIFO_TAIL g b = 0" and h31: "FIFO_HEAD g b < 2 ^ 31"
    using inv by (auto simp: ring_records_def)
  have loc: "locate_query c g b qid None [] = Some (Inr (scan_records qid False [] recs))"
    using locate_query_on_ring[OF inv, of None qid "[]"] by simp
  have notfound: "fst (scan_records qid False [] recs) \<noteq> qid"
    using scan_records_absent[OF fresh] q0 by simp
  have Lmax: "(if query_len > PGSM_QUERY_MAX_LEN c then PGSM_QUERY_MAX_LEN c else query_len) = L"
    using L by (simp add: min_def)
  have sum64: "?h + L + 16 < (2::nat) ^ 64"
    using small by (rule less_trans) simp
  have next0: "int_of_uint64 ((uint64_of_int (FIFO_HEAD g b) + L + 8 + 8) mod 2 ^ 64) = int (?h + L + 16)"
    using uint64_of_int_nonneg[OF h0 h31] sum64 int_of_uint64_small[OF small]
    by (simp add: add.assoc)
  have ge: "int (query_buf_size_bucket c) \<le> int (?h + L + 16)"
    using reach by linarith
  have hne: "(0::int) \<noteq> FIFO_HEAD g b" using hpos by simp
  have nneg: "\<not> FIFO_HEAD g b < 0" using h0 by simp
  have nshort: "\<not> length query < L" using Lq by simp
  have st: "store_query c qid query query_len g =
    (case mem_write (pgss_qbuf g b) ?h (bytes_of_uint64 qid) of
       None \<Rightarrow> Some (Inl OutOfBounds)
     | Some buf1 \<Rightarrow>
    (case mem_write buf1 (?h + 8) (bytes_of_uint64 (of_nat L)) of
       None \<Rightarrow> Some (Inl OutOfBounds)
     | Some buf2 \<Rightarrow>
    (case mem_write buf2 (?h + 8 + 8) (take L query) of
       None \<Rightarrow> Some (Inl OutOfBounds)
     | Some buf3 \<Rightarrow>
         Some (Inr (g\<lparr>pgss_qbuf := (pgss_qbuf g)(b := buf3),
                      pgss := (pgss g)\<lparr>query_fifo := (query_fifo (pgss g))
                        (b := (query_fifo (pgss g) b)\<lparr>head := 0\<rparr>)\<rparr>\<rparr>)))))"
    unfolding store_query_def Let_def b[symmetric] Lmax loc next0
    using notfound ge hne nneg nshort by (simp add: split_beta)
  have lt: "length (take L query) = L" using Lq by simp
  show ?thesis
  proof (intro conjI impI)
    assume eq: "?h + L + 16 = query_buf_size_bucket c"
    show "\<exists>g'. store_query c qid query query_len g = Some (Inr g') \<and>
              FIFO_HEAD g' b = 0 \<and> FIFO_TAIL g' b = 0 \<and> elog g' = elog g"
      unfolding st using eq len lt tl0
      by (auto simp: mem_write_def)
  next
    assume gt: "query_buf_size_bucket c < ?h + L + 16"
    show "store_query c qid query query_len g = Some (Inl OutOfBounds)"
      unfolding st using gt len lt
      by (auto simp: mem_write_def)
  qed
qed


text \<open>
  C2: the ring-full test of \<^verbatim>\<open>store_query\<close> compares the next head with the head, not
  with the tail. In a 40-byte ring that holds record 1 (20 bytes, head 20, tail 0) the
  find returns its text. A store of a second 20-byte record reaches the end of the
  buffer: it is accepted without a warning, the head wraps to 0 and meets the tail, and
  record 1 is not found any more. The next store overwrites record 1. A store of a
  24-byte record at head 20 is accepted as well and writes past the end of the buffer.
\<close>

theorem store_query_laps_tail:
  "locate_query ex_config (ex_state 20 (ex_rec1 @ replicate 20 0)) 0 1 (Some 9) [] =
     Some (Inr (1, [97, 98, 99, 100])) \<and>
   store_query ex_config 2 [101, 102, 103, 104] 4 (ex_state 20 (ex_rec1 @ replicate 20 0)) =
     Some (Inr (ex_state 0 (ex_rec1 @ ex_rec2))) \<and>
   locate_query ex_config (ex_state 0 (ex_rec1 @ ex_rec2)) 0 1 (Some 9) [] = Some (Inr (0, [])) \<and>
   locate_query ex_config (ex_state 0 (ex_rec1 @ ex_rec2)) 0 2 (Some 9) [] = Some (Inr (0, [])) \<and>
   store_query ex_config 3 [105, 106, 107, 108] 4 (ex_state 0 (ex_rec1 @ ex_rec2)) =
     Some (Inr (ex_state 20
       ([3, 0, 0, 0, 0, 0, 0, 0, 4, 0, 0, 0, 0, 0, 0, 0, 105, 106, 107, 108] @ ex_rec2))) \<and>
   store_query ex_config 2 [101, 102, 103, 104, 105, 106, 107, 108] 8
       (ex_state 20 (ex_rec1 @ replicate 20 0)) = Some (Inl OutOfBounds)"
  by (simp add: ex_eval)

subsection \<open>Texts longer than the maximum\<close>

text \<open>
  The store cuts a text longer than \<open>PGSM_QUERY_MAX_LEN\<close> (line 2628): under the
  conditions of the store-then-find lemma the new record holds the first
  \<open>PGSM_QUERY_MAX_LEN\<close> bytes only, and a find with a destination of more than
  \<open>PGSM_QUERY_MAX_LEN\<close> bytes returns that prefix, which is not the text passed to
  the store.
\<close>

lemma store_query_cuts_text:
  assumes "ring_records c g (current_wbucket (pgss g)) recs"
    and "qid \<noteq> 0" and "qid \<notin> fst ` set recs"
    and "PGSM_QUERY_MAX_LEN c < query_len" and "query_len \<le> length query"
    and "0 < PGSM_QUERY_MAX_LEN c"
    and "nat (FIFO_HEAD g (current_wbucket (pgss g))) + PGSM_QUERY_MAX_LEN c + 16
           < query_buf_size_bucket c"
    and "list_all (\<lambda>(i, t). length t < cap) recs"
    and "PGSM_QUERY_MAX_LEN c < cap"
  shows "\<exists>g'. store_query c qid query query_len g = Some (Inr g') \<and>
           ring_records c g' (current_wbucket (pgss g))
             (recs @ [(qid, take (PGSM_QUERY_MAX_LEN c) query)]) \<and>
           locate_query c g' (current_wbucket (pgss g)) qid (Some cap) out =
             Some (Inr (qid, take (PGSM_QUERY_MAX_LEN c) query)) \<and>
           take (PGSM_QUERY_MAX_LEN c) query \<noteq> query"
proof -
  have L: "PGSM_QUERY_MAX_LEN c = min query_len (PGSM_QUERY_MAX_LEN c)"
    using assms(4) by simp
  have Lq: "PGSM_QUERY_MAX_LEN c \<le> length query" using assms(4,5) by simp
  have "length (take (PGSM_QUERY_MAX_LEN c) query) \<noteq> length query"
    using assms(4,5) by simp
  then have ne: "take (PGSM_QUERY_MAX_LEN c) query \<noteq> query" by metis
  from store_then_locate[OF assms(1,2,3) L assms(6) Lq assms(7,8,9), of out]
  show ?thesis using ne by blast
qed

text \<open>
  The scan of \<^verbatim>\<open>locate_query\<close> copies every record it passes into the destination and
  writes a terminating 0 after it (lines 2608 to 2612): \<open>len + 1\<close> bytes. When the record
  of the fingerprint sought is the last of the ring and its text does not leave room for
  the terminator, the find writes past the end of the destination, at this record or at an
  earlier one.
\<close>

lemma locate_query_loop_overrun:
  assumes "drop p buf = concat (map enc_record (recs @ [(qid, tx)])) @ rest"
    and "fhead = p + length (concat (map enc_record (recs @ [(qid, tx)])))"
    and "fhead < bsize" and "bsize < 2 ^ 64"
    and "list_all (\<lambda>(i, t). t \<noteq> [] \<and> i \<noteq> qid) recs"
    and "tx \<noteq> []" and "cap \<le> length tx"
  shows "locate_query_loop bsize buf fhead qid (Some cap) out p = Some (Inl OutOfBounds)"
  using assms
proof (induction recs arbitrary: p out)
  case Nil
  let ?n = "length tx"
  have dp: "drop p buf = bytes_of_uint64 qid @ bytes_of_uint64 (of_nat ?n) @ tx @ rest"
    using Nil.prems(1) by simp
  have fh: "fhead = p + 16 + ?n" using Nil.prems(2) by simp
  have nlt: "?n < 2 ^ 64" using fh Nil.prems(3,4) by simp
  have un: "unat (of_nat ?n :: uint64) = ?n"
    using nlt by (simp add: unat_of_nat take_bit_nat_eq_self)
  have r1: "mem_read buf p 8 = Some (bytes_of_uint64 qid)"
    using mem_read_at[of p buf "[]" "bytes_of_uint64 qid" "bytes_of_uint64 (of_nat ?n) @ tx @ rest"] dp
    by (metis append_Nil length_bytes_of_uint64 list.size(3) add_0_right length_0_conv zero_neq_numeral)
  have r2: "mem_read buf (p + 8) 8 = Some (bytes_of_uint64 (of_nat ?n))"
    using mem_read_at[of p buf "bytes_of_uint64 qid" "bytes_of_uint64 (of_nat ?n)" "tx @ rest"] dp
    by (metis length_bytes_of_uint64 length_0_conv zero_neq_numeral)
  have r3: "mem_read buf (p + 16) ?n = Some tx"
    using mem_read_at[of p buf "bytes_of_uint64 qid @ bytes_of_uint64 (of_nat ?n)" tx rest] dp
      Nil.prems(6)
    by simp
  have ne: "fhead \<noteq> p" using fh by simp
  show ?case
    apply (subst locate_query_loop.simps)
    using ne r1 r2 r3 un Nil.prems(6,7) by simp
next
  case (Cons r rs)
  obtain i t where r: "r = (i, t)" by (cases r)
  let ?R = "concat (map enc_record (rs @ [(qid, tx)]))"
  let ?n = "length t"
  have tne: "t \<noteq> []" and iq: "i \<noteq> qid"
    using Cons.prems(5) r by auto
  have dp: "drop p buf = bytes_of_uint64 i @ bytes_of_uint64 (of_nat ?n) @ t @ ?R @ rest"
    using Cons.prems(1) r by simp
  have fh: "fhead = p + 16 + ?n + length ?R"
    using Cons.prems(2) r by simp
  have nlt: "?n < 2 ^ 64" using fh Cons.prems(3,4) by simp
  have un: "unat (of_nat ?n :: uint64) = ?n"
    using nlt by (simp add: unat_of_nat take_bit_nat_eq_self)
  have r1: "mem_read buf p 8 = Some (bytes_of_uint64 i)"
    using mem_read_at[of p buf "[]" "bytes_of_uint64 i" "bytes_of_uint64 (of_nat ?n) @ t @ ?R @ rest"] dp
    by (metis append_Nil length_bytes_of_uint64 list.size(3) add_0_right length_0_conv zero_neq_numeral)
  have r2: "mem_read buf (p + 8) 8 = Some (bytes_of_uint64 (of_nat ?n))"
    using mem_read_at[of p buf "bytes_of_uint64 i" "bytes_of_uint64 (of_nat ?n)" "t @ ?R @ rest"] dp
    by (metis length_bytes_of_uint64 length_0_conv zero_neq_numeral)
  have r3: "mem_read buf (p + 16) ?n = Some t"
    using mem_read_at[of p buf "bytes_of_uint64 i @ bytes_of_uint64 (of_nat ?n)" t "?R @ rest"] dp tne
    by simp
  have ne: "fhead \<noteq> p" using fh by simp
  have pos: "((p + (16 + ?n)) mod 2 ^ 64) mod bsize = p + 16 + ?n"
    using fh Cons.prems(3,4) by simp
  have dp': "drop (p + 16 + ?n) buf = ?R @ rest"
  proof -
    have "drop (p + 16 + ?n) buf = drop (16 + ?n) (drop p buf)"
      by (simp add: add.commute add.left_commute)
    then show ?thesis using dp by simp
  qed
  have rs: "list_all (\<lambda>(i, t). t \<noteq> [] \<and> i \<noteq> qid) rs"
    using Cons.prems(5) by simp
  have IH: "\<And>out'. locate_query_loop bsize buf fhead qid (Some cap) out' (p + 16 + ?n) =
           Some (Inl OutOfBounds)"
    using Cons.IH[OF dp' _ Cons.prems(3,4) rs Cons.prems(6,7)] fh by simp
  have bs: "bsize \<noteq> 0" using Cons.prems(3) by simp
  show ?case
  proof (cases "?n + 1 \<le> cap")
    case True
    then show ?thesis
      unfolding r
      apply (subst locate_query_loop.simps)
      using ne r1 r2 r3 un tne pos IH bs iq by simp
  next
    case False
    then show ?thesis
      unfolding r
      apply (subst locate_query_loop.simps)
      using ne r1 r2 r3 un tne iq by simp
  qed
qed

lemma locate_query_overrun_on_ring:
  assumes "ring_records c g b (recs @ [(qid, tx)])"
    and "qid \<notin> fst ` set recs" and "cap \<le> length tx"
  shows "locate_query c g b qid (Some cap) out = Some (Inl OutOfBounds)"
proof -
  let ?h = "nat (FIFO_HEAD g b)"
  let ?buf = "pgss_qbuf g b"
  have h31: "FIFO_HEAD g b < 2 ^ 31" and h0: "0 \<le> FIFO_HEAD g b"
    and bs: "query_buf_size_bucket c < 2 ^ 31"
    and hl: "?h < query_buf_size_bucket c"
    using assms(1) by (auto simp: ring_records_def)
  have len: "length ?buf = query_buf_size_bucket c"
    using assms(1) by (simp add: ring_records_def)
  have tk: "take ?h ?buf = concat (map enc_record (recs @ [(qid, tx)]))"
    using assms(1) by (simp add: ring_records_def)
  have d: "drop 0 ?buf = concat (map enc_record (recs @ [(qid, tx)])) @ drop ?h ?buf"
    unfolding tk[symmetric] by simp
  have "length (take ?h ?buf) = ?h" using len hl by simp
  then have fh: "?h = 0 + length (concat (map enc_record (recs @ [(qid, tx)])))"
    using arg_cong[OF tk, of length] by simp
  have "list_all (\<lambda>(i, t). t \<noteq> []) recs"
    using assms(1) by (simp add: ring_records_def)
  then have nn: "\<And>i t. (i, t) \<in> set recs \<Longrightarrow> t \<noteq> []"
    unfolding list_all_iff by blast
  have ne: "list_all (\<lambda>(i, t). t \<noteq> [] \<and> i \<noteq> qid) recs"
    unfolding list_all_iff
  proof (rule ballI)
    fix x assume x: "x \<in> set recs"
    obtain i t where xe: "x = (i, t)" by (cases x)
    have "fst x \<in> fst ` set recs" using x by (rule imageI)
    then have "i \<noteq> qid" using assms(2) xe by auto
    moreover have "t \<noteq> []" using nn x xe by simp
    ultimately show "case x of (i, t) \<Rightarrow> t \<noteq> [] \<and> i \<noteq> qid" using xe by simp
  qed
  have tne: "tx \<noteq> []" using assms(1) by (simp add: ring_records_def)
  have b64: "query_buf_size_bucket c < 2 ^ 64"
    using bs by (rule less_trans) simp
  have tl: "uint64_of_int (FIFO_TAIL g b) = 0"
    using assms(1) by (simp add: ring_records_def uint64_of_int_def)
  show ?thesis
    unfolding locate_query_def tl uint64_of_int_nonneg[OF h0 h31]
    by (rule locate_query_loop_overrun[OF d fh hl b64 ne tne assms(3)])
qed

text \<open>
  The destination of the only find that copies a text is \<^verbatim>\<open>query_txt\<close>, allocated with
  \<^verbatim>\<open>malloc(PGSM_QUERY_MAX_LEN)\<close> (lines 1181 and 1233). A text cut by the store has
  exactly \<open>PGSM_QUERY_MAX_LEN\<close> bytes, so the find of its fingerprint overruns that
  destination, in every well-formed ring.
\<close>

lemma locate_query_cut_text_overrun:
  assumes "ring_records c g (current_wbucket (pgss g)) recs"
    and "qid \<noteq> 0" and "qid \<notin> fst ` set recs"
    and "PGSM_QUERY_MAX_LEN c < query_len" and "query_len \<le> length query"
    and "0 < PGSM_QUERY_MAX_LEN c"
    and "nat (FIFO_HEAD g (current_wbucket (pgss g))) + PGSM_QUERY_MAX_LEN c + 16
           < query_buf_size_bucket c"
  shows "\<exists>g'. store_query c qid query query_len g = Some (Inr g') \<and>
           ring_records c g' (current_wbucket (pgss g))
             (recs @ [(qid, take (PGSM_QUERY_MAX_LEN c) query)]) \<and>
           locate_query c g' (current_wbucket (pgss g)) qid (Some (PGSM_QUERY_MAX_LEN c)) out =
             Some (Inl OutOfBounds)"
proof -
  have L: "PGSM_QUERY_MAX_LEN c = min query_len (PGSM_QUERY_MAX_LEN c)"
    using assms(4) by simp
  have Lq: "PGSM_QUERY_MAX_LEN c \<le> length query" using assms(4,5) by simp
  from store_query_appends[OF assms(1) refl assms(2,3) L Lq assms(6,7)]
  obtain g' where st: "store_query c qid query query_len g = Some (Inr g')"
    and inv': "ring_records c g' (current_wbucket (pgss g))
                 (recs @ [(qid, take (PGSM_QUERY_MAX_LEN c) query)])"
    by blast
  have "PGSM_QUERY_MAX_LEN c \<le> length (take (PGSM_QUERY_MAX_LEN c) query)"
    using Lq by simp
  from locate_query_overrun_on_ring[OF inv' assms(3) this, of out] st inv'
  show ?thesis by blast
qed

text \<open>
  C10: a find of a text that the store has cut does not return the cut text; it writes
  past the end of its destination. With texts cut at 8 bytes, the store of the 10-byte text
  \<^verbatim>\<open>abcdefghij\<close> under the fingerprint 5 in an empty 40-byte ring succeeds and leaves a
  record with the length 8 and the bytes \<^verbatim>\<open>abcdefgh\<close>, as the claim says. The find
  copies 8 bytes and then writes the terminating 0 at \<^verbatim>\<open>query[8]\<close>: with the
  destination the program allocates, \<^verbatim>\<open>malloc(PGSM_QUERY_MAX_LEN)\<close> (line 1181, used by
  the find of line 1233), that is one byte past its end. A destination one byte longer
  receives the cut text, and a 7-byte text stored in the same ring is found with the
  destination of the program.
\<close>

theorem locate_query_overruns_query_txt:
  "store_query ex_config 5 [97, 98, 99, 100, 101, 102, 103, 104, 105, 106] 10
       (ex_state 0 (replicate 40 0)) =
     Some (Inr (ex_state 24
       ([5, 0, 0, 0, 0, 0, 0, 0, 8, 0, 0, 0, 0, 0, 0, 0, 97, 98, 99, 100, 101, 102, 103, 104]
          @ replicate 16 0))) \<and>
   locate_query ex_config (ex_state 24
       ([5, 0, 0, 0, 0, 0, 0, 0, 8, 0, 0, 0, 0, 0, 0, 0, 97, 98, 99, 100, 101, 102, 103, 104]
          @ replicate 16 0))
       0 5 (Some (PGSM_QUERY_MAX_LEN ex_config)) [] = Some (Inl OutOfBounds) \<and>
   locate_query ex_config (ex_state 24
       ([5, 0, 0, 0, 0, 0, 0, 0, 8, 0, 0, 0, 0, 0, 0, 0, 97, 98, 99, 100, 101, 102, 103, 104]
          @ replicate 16 0))
       0 5 (Some (PGSM_QUERY_MAX_LEN ex_config + 1)) [] =
     Some (Inr (5, [97, 98, 99, 100, 101, 102, 103, 104])) \<and>
   store_query ex_config 5 [97, 98, 99, 100, 101, 102, 103] 7 (ex_state 0 (replicate 40 0)) =
     Some (Inr (ex_state 23
       ([5, 0, 0, 0, 0, 0, 0, 0, 7, 0, 0, 0, 0, 0, 0, 0, 97, 98, 99, 100, 101, 102, 103]
          @ replicate 17 0))) \<and>
   locate_query ex_config (ex_state 23
       ([5, 0, 0, 0, 0, 0, 0, 0, 7, 0, 0, 0, 0, 0, 0, 0, 97, 98, 99, 100, 101, 102, 103]
          @ replicate 17 0))
       0 5 (Some (PGSM_QUERY_MAX_LEN ex_config)) [] =
     Some (Inr (5, [97, 98, 99, 100, 101, 102, 103]))"
  by (simp add: ex_eval)

section \<open>The statistics table: lemmas\<close>

subsection \<open>Eviction and rotation\<close>




lemma map_of_hash_update_None:
  "map_of (hash_update tab k f) k' = map_option (\<lambda>v. if k' = k then f v else v) (map_of tab k')"
  unfolding hash_update_def by (induction tab) auto






subsection \<open>Refused entries\<close>

text \<open>
  C4. When the key of a record call is not in the table after the bucket of the call has
  been determined, and the table holds \<open>PGSM_MAX\<close> entries or the current bucket holds
  its share \<open>PGSM_MAX div PGSM_MAX_BUCKETS\<close>, the call returns normally and changes
  nothing but, in the second case, the overflow counter of the current bucket, which
  goes up by one: no entry, rollup, text or histogram is written.
\<close>

theorem entry_creation_refused:
  assumes "pgss_store_bucket c (a_current_usec a) (a_timestamp a) g = Inr (b, reset, g1)"
    and "map_of (pgss_hash g1)
           \<lparr>userid = a_userid a, dbid = a_dbid a, queryid = a_queryId a, bucket_id = b\<rparr> = None"
    and "0 < PGSM_MAX_BUCKETS c"
    and "PGSM_MAX c \<le> length (pgss_hash g1) \<or>
         PGSM_MAX c div PGSM_MAX_BUCKETS c \<le> bucket_entry (pgss g1) (current_wbucket (pgss g1))"
  shows "pgss_store c a g =
           Some (Inr (if PGSM_MAX c div PGSM_MAX_BUCKETS c
                           \<le> bucket_entry (pgss g1) (current_wbucket (pgss g1))
                      then g1\<lparr>pgss := (pgss g1)\<lparr>bucket_overflow := (bucket_overflow (pgss g1))
                               (current_wbucket (pgss g1) :=
                                  bucket_overflow (pgss g1) (current_wbucket (pgss g1)) + 1)\<rparr>\<rparr>
                      else g1))"
  using assms
  by (auto simp: pgss_store_def entry_alloc_def Let_def)

theorem entry_creation_refused_witness:
  "pgss_store_bucket ex_config (a_current_usec ex_args) (a_timestamp ex_args) ex_full
     = Inr (0, False, ex_full) \<and>
   map_of (pgss_hash ex_full)
     \<lparr>userid = a_userid ex_args, dbid = a_dbid ex_args, queryid = a_queryId ex_args,
      bucket_id = 0\<rparr> = None \<and>
   PGSM_MAX ex_config div PGSM_MAX_BUCKETS ex_config
     \<le> bucket_entry (pgss ex_full) (current_wbucket (pgss ex_full)) \<and>
   pgss_store ex_config ex_args ex_full =
     Some (Inr (ex_full\<lparr>pgss := ex_shared\<lparr>bucket_overflow := (\<lambda>_. 0)(0 := 1)\<rparr>\<rparr>))"
proof -
  have h1: "pgss_store_bucket ex_config (a_current_usec ex_args) (a_timestamp ex_args) ex_full
     = Inr (0, False, ex_full)"
    by (simp add: pgss_store_bucket_def get_next_wbucket_def ex_full_def ex_shared_def
          ex_config_def ex_args_def)
  have h2: "map_of (pgss_hash ex_full)
     \<lparr>userid = a_userid ex_args, dbid = a_dbid ex_args, queryid = a_queryId ex_args,
      bucket_id = 0\<rparr> = None"
    by (simp add: ex_full_def ex_args_def ex_key_def)
  have h3: "0 < PGSM_MAX_BUCKETS ex_config" by (simp add: ex_config_def)
  have h4: "PGSM_MAX ex_config div PGSM_MAX_BUCKETS ex_config
     \<le> bucket_entry (pgss ex_full) (current_wbucket (pgss ex_full))"
    by (simp add: ex_config_def ex_full_def ex_shared_def)
  have "pgss_store ex_config ex_args ex_full =
     Some (Inr (ex_full\<lparr>pgss := ex_shared\<lparr>bucket_overflow := (\<lambda>_. 0)(0 := 1)\<rparr>\<rparr>))"
    using entry_creation_refused[OF h1 h2 h3 disjI2[OF h4]] h4
    by (simp add: ex_full_def ex_shared_def)
  then show ?thesis using h1 h2 h4 by blast
qed

subsection \<open>Welford's update\<close>

lemma sum_sq_dev: "sum_list (map (\<lambda>t. (t - m) ^ 2) ts) =
    sum_list (map (\<lambda>t. t ^ 2) ts) - 2 * m * sum_list ts + real (length ts) * m ^ 2"
  by (induction ts) (simp_all add: power2_eq_square algebra_simps)

lemma two_pass_sum_var_alt:
  assumes "ts \<noteq> []"
  shows "two_pass_sum_var ts = sum_list (map (\<lambda>t. t ^ 2) ts) - (sum_list ts) ^ 2 / real (length ts)"
proof -
  have n: "real (length ts) \<noteq> 0" using assms by simp
  show ?thesis
    unfolding two_pass_sum_var_def two_pass_mean_def sum_sq_dev
    using n by (simp add: power2_eq_square field_simps)
qed

lemma welford_step_real:
  fixes x :: real
  assumes "0 < x"
  shows "(Q - S ^ 2 / x) + (t - S / x) * (t - (S / x + (t - S / x) / (x + 1)))
           = (Q + t ^ 2) - (S + t) ^ 2 / (x + 1)"
proof -
  have x: "x \<noteq> 0" "x + 1 \<noteq> 0" using assms by simp_all
  define m where "m = S / x"
  define e where "e = (t - m) / (x + 1)"
  have S: "S = m * x" using x by (simp add: m_def)
  have t: "t = m + e * (x + 1)" using x by (simp add: e_def)
  have d1: "S ^ 2 / x = m * m * x" using x by (simp add: S power2_eq_square)
  have d2: "(S + t) ^ 2 / (x + 1) = (m + e) * (m + e) * (x + 1)"
  proof -
    have "S + t = (m + e) * (x + 1)" by (simp add: S t algebra_simps)
    then show ?thesis using x by (simp add: power2_eq_square)
  qed
  have "(Q - m * m * x) + (t - m) * (t - (m + e)) = (Q + t ^ 2) - (m + e) * (m + e) * (x + 1)"
    by (simp add: t power2_eq_square algebra_simps)
  then show ?thesis
    unfolding d1 d2 m_def[symmetric] e_def[symmetric] .
qed

lemma welford_mean_real:
  fixes x :: real
  assumes "0 < x"
  shows "S / x + (t - S / x) / (x + 1) = (S + t) / (x + 1)"
proof -
  have x: "x \<noteq> 0" "x + 1 \<noteq> 0" using assms by simp_all
  define m where "m = S / x"
  define e where "e = (t - m) / (x + 1)"
  have S: "S = m * x" using x by (simp add: m_def)
  have t: "t = m + e * (x + 1)" using x by (simp add: e_def)
  have "S + t = (m + e) * (x + 1)" by (simp add: S t algebra_simps)
  then have "(S + t) / (x + 1) = m + e" using x by simp
  then show ?thesis unfolding m_def[symmetric] e_def[symmetric] by simp
qed

lemma welford_step:
  assumes "0 < n"
  shows "(Q - S ^ 2 / real n) + (t - S / real n) * (t - (S / real n + (t - S / real n) / real (Suc n)))
           = (Q + t ^ 2) - (S + t) ^ 2 / real (Suc n)"
  using welford_step_real[of "real n" Q S t] assms by (simp add: add.commute)

lemma welford_mean_step:
  assumes "0 < n"
  shows "S / real n + (t - S / real n) / real (Suc n) = (S + t) / real (Suc n)"
  using welford_mean_real[of "real n" S t] assms by (simp add: add.commute)

lemma record_times_invariant:
  assumes "calls (kind_calls cs kind) = 0" and "sum_var_time (kind_time cs kind) = 0"
    and "ts \<noteq> []"
  shows "calls (kind_calls (record_times c kind ts cs) kind) = length ts \<and>
         mean_time (kind_time (record_times c kind ts cs) kind) = sum_list ts / real (length ts) \<and>
         sum_var_time (kind_time (record_times c kind ts cs) kind) =
           sum_list (map (\<lambda>t. t ^ 2) ts) - (sum_list ts) ^ 2 / real (length ts)"
  using assms(3)
proof (induction ts rule: rev_induct)
  case Nil
  then show ?case by simp
next
  case (snoc t ts)
  show ?case
  proof (cases "ts = []")
    case True
    then show ?thesis
      using assms(1,2)
      by (simp add: record_times_def update_calls_time_def Let_def power2_eq_square)
  next
    case False
    then have n: "0 < length ts" by simp
    from snoc.IH[OF False] have
      c: "calls (kind_calls (record_times c kind ts cs) kind) = length ts" and
      m: "mean_time (kind_time (record_times c kind ts cs) kind) = sum_list ts / real (length ts)" and
      v: "sum_var_time (kind_time (record_times c kind ts cs) kind) =
           sum_list (map (\<lambda>t. t ^ 2) ts) - (sum_list ts) ^ 2 / real (length ts)"
      by simp_all
    have st: "record_times c kind (ts @ [t]) cs = update_calls_time c kind t (record_times c kind ts cs)"
      by (simp add: record_times_def)
    have ne1: "Suc (length ts) \<noteq> 1" "length ts \<noteq> 0" using n by simp_all
    show ?thesis
      unfolding st
      using welford_step[OF n, of "sum_list (map (\<lambda>t. t ^ 2) ts)" "sum_list ts" t]
        welford_mean_step[OF n, of "sum_list ts" t] ne1
      by (simp add: update_calls_time_def Let_def c m v)
  qed
qed


text \<open>
  C5. The counters of an entry that has no call of a kind yet and a zero accumulator (a
  new entry) hold, after any non-empty sequence of measurements of that kind, their
  number, their two-pass mean and their two-pass sum of squared deviations. The
  arithmetic of \<^verbatim>\<open>double\<close> is that of the reals here.
\<close>

theorem welford_matches_two_pass:
  assumes "calls (kind_calls cs kind) = 0" and "sum_var_time (kind_time cs kind) = 0"
    and "ts \<noteq> []"
  shows "calls (kind_calls (record_times c kind ts cs) kind) = length ts \<and>
         mean_time (kind_time (record_times c kind ts cs) kind) = two_pass_mean ts \<and>
         sum_var_time (kind_time (record_times c kind ts cs) kind) = two_pass_sum_var ts"
  using record_times_invariant[OF assms] two_pass_sum_var_alt[OF assms(3)]
  by (simp add: two_pass_mean_def)

text \<open>
  The durations 10, 20, 30: mean 20, accumulator 200, and the population variance
  \<open>200 / 3\<close> the report derives from it (\<^verbatim>\<open>sum_var_time / calls\<close>) is 66.67 to two
  decimals.
\<close>

theorem welford_matches_two_pass_witness:
  "calls (kind_calls zero_Counters True) = 0 \<and>
   sum_var_time (kind_time zero_Counters True) = 0 \<and>
   [10, 20, 30] \<noteq> ([] :: real list) \<and>
   calls (kind_calls (record_times ex_config True [10, 20, 30] zero_Counters) True) = 3 \<and>
   mean_time (kind_time (record_times ex_config True [10, 20, 30] zero_Counters) True) = 20 \<and>
   sum_var_time (kind_time (record_times ex_config True [10, 20, 30] zero_Counters) True) = 200 \<and>
   \<bar>sum_var_time (kind_time (record_times ex_config True [10, 20, 30] zero_Counters) True)
      / real (calls (kind_calls (record_times ex_config True [10, 20, 30] zero_Counters) True))
      - 6667 / 100\<bar> < 5 / 1000"
proof -
  have h1: "calls (kind_calls zero_Counters True) = 0" by (simp add: zero_Counters_def)
  have h2: "sum_var_time (kind_time zero_Counters True) = 0" by (simp add: zero_Counters_def)
  have h3: "[10, 20, 30] \<noteq> ([] :: real list)" by simp
  have m: "two_pass_mean [10, 20, 30] = 20" by (simp add: two_pass_mean_def)
  have v: "two_pass_sum_var [10, 20, 30] = 200" by (simp add: two_pass_sum_var_def m)
  from welford_matches_two_pass[OF h1 h2 h3, of ex_config]
  have r: "calls (kind_calls (record_times ex_config True [10, 20, 30] zero_Counters) True) = 3"
    "mean_time (kind_time (record_times ex_config True [10, 20, 30] zero_Counters) True) = 20"
    "sum_var_time (kind_time (record_times ex_config True [10, 20, 30] zero_Counters) True) = 200"
    by (simp_all add: m v)
  show ?thesis unfolding r using h1 h2 by simp
qed

subsection \<open>The response-time histogram\<close>

lemma update_resp_calls_gap:
  assumes "0 \<le> PGSM_RESPOSE_TIME_STEP c"
    and "real_of_int (PGSM_RESPOSE_TIME_LOWER_BOUND c
            + PGSM_RESPOSE_TIME_STEP c * (int (MAX_RESPONSE_BUCKET c) - 2)) \<le> t"
    and "t \<le> real_of_int (PGSM_RESPOSE_TIME_LOWER_BOUND c
            + PGSM_RESPOSE_TIME_STEP c * int (MAX_RESPONSE_BUCKET c))"
  shows "update_resp_calls c t h = Inr h"
proof -
  have "\<not> t < real_of_int (PGSM_RESPOSE_TIME_LOWER_BOUND c + PGSM_RESPOSE_TIME_STEP c * int i)"
    if "i < MAX_RESPONSE_BUCKET c - 1" for i
  proof -
    have "int i \<le> int (MAX_RESPONSE_BUCKET c) - 2" using that by linarith
    then have "PGSM_RESPOSE_TIME_STEP c * int i
                 \<le> PGSM_RESPOSE_TIME_STEP c * (int (MAX_RESPONSE_BUCKET c) - 2)"
      using assms(1) by (rule mult_left_mono)
    then have "real_of_int (PGSM_RESPOSE_TIME_LOWER_BOUND c + PGSM_RESPOSE_TIME_STEP c * int i)
                 \<le> real_of_int (PGSM_RESPOSE_TIME_LOWER_BOUND c
                      + PGSM_RESPOSE_TIME_STEP c * (int (MAX_RESPONSE_BUCKET c) - 2))"
      by linarith
    then show ?thesis using assms(2) by linarith
  qed
  then have "find (\<lambda>i. t < real_of_int (PGSM_RESPOSE_TIME_LOWER_BOUND c
                                      + PGSM_RESPOSE_TIME_STEP c * int i))
               [0..<MAX_RESPONSE_BUCKET c - 1] = None"
    by (simp add: find_None_iff)
  then show ?thesis
    using assms(3) by (simp add: update_resp_calls_def)
qed

text \<open>
  The histogram is changed, or an index outside it is reached, exactly where one of the
  two increments is reached. So \<^verbatim>\<open>pgss_store\<close> dereferences the pointer to the entry
  of the bucket for such durations only: for a bucket without an entry in the bucket
  table the update of the counters returns for the durations that match no cell, and
  fails for the others.
\<close>

lemma resp_calls_touched_iff:
  "resp_calls_touched c t \<longleftrightarrow> update_resp_calls c t h \<noteq> Inr h"
proof (cases "find (\<lambda>i. t < real_of_int (PGSM_RESPOSE_TIME_LOWER_BOUND c
                                + PGSM_RESPOSE_TIME_STEP c * int i))
                [0..<MAX_RESPONSE_BUCKET c - 1]")
  case None
  then show ?thesis
    by (simp add: resp_calls_touched_def update_resp_calls_def fun_upd_idem_iff)
next
  case (Some i)
  then have "i \<in> set [0..<MAX_RESPONSE_BUCKET c - 1]"
    by (auto simp: find_Some_iff)
  then have lt: "i < MAX_RESPONSE_BUCKET c - 1" by simp
  have a: "h(i := h i + 1) \<noteq> h" by (simp add: fun_upd_idem_iff)
  have "(h(i := h i + 1, MAX_RESPONSE_BUCKET c - 1 :=
            (h(i := h i + 1)) (MAX_RESPONSE_BUCKET c - 1) + 1)) i \<noteq> h i"
    using lt by simp
  then have b: "h(i := h i + 1, MAX_RESPONSE_BUCKET c - 1 :=
            (h(i := h i + 1)) (MAX_RESPONSE_BUCKET c - 1) + 1) \<noteq> h"
    by metis
  show ?thesis
    using Some a b by (simp add: resp_calls_touched_def update_resp_calls_def Let_def)
qed

lemma pgss_store_counters_no_bucket_entry:
  assumes "map_of (pgss_buckethash g) (bucket_id key) = None"
  shows "(\<exists>g'. pgss_store_counters c key kind t nrows reset addr g = Inr g') \<longleftrightarrow>
           \<not> resp_calls_touched c t"
  using assms
  by (auto simp: pgss_store_counters_def update_agg_counters_def Let_def split: sum.splits)

text \<open>
  C6: with lower bound 1, step 1 and 10 cells the loop serves the cells 0 to 8 (durations
  below 9) and the test after it the cell 9 for durations above \<open>1 + 1 * 10 = 11\<close>. A
  duration of 8.5 goes to cell 8 and one of 12 to cell 9, but a duration of 9, on the
  boundary of the last cell, one of 9.5 and one of 11 increment no cell at all.
\<close>

theorem resp_calls_gap:
  "map_sum id (\<lambda>h. map h [0..<10]) (update_resp_calls ex_config (17 / 2) (\<lambda>_. 0))
     = Inr [0, 0, 0, 0, 0, 0, 0, 0, 1, 0] \<and>
   map_sum id (\<lambda>h. map h [0..<10]) (update_resp_calls ex_config 12 (\<lambda>_. 0))
     = Inr [0, 0, 0, 0, 0, 0, 0, 0, 0, 1] \<and>
   map_sum id (\<lambda>h. map h [0..<10]) (update_resp_calls ex_config 9 (\<lambda>_. 0))
     = Inr [0, 0, 0, 0, 0, 0, 0, 0, 0, 0] \<and>
   map_sum id (\<lambda>h. map h [0..<10]) (update_resp_calls ex_config (19 / 2) (\<lambda>_. 0))
     = Inr [0, 0, 0, 0, 0, 0, 0, 0, 0, 0] \<and>
   map_sum id (\<lambda>h. map h [0..<10]) (update_resp_calls ex_config 11 (\<lambda>_. 0))
     = Inr [0, 0, 0, 0, 0, 0, 0, 0, 0, 0]"
  by (simp add: update_resp_calls_def ex_config_def upt_rec)

subsection \<open>Reset\<close>

text \<open>
  C8: \<^verbatim>\<open>entry_reset\<close> on a state whose bucket table is not empty (after start-up it holds
  one entry per bucket). The loops over the bucket table and over the wait-event table
  remove \<^verbatim>\<open>&dbentry->key\<close>, not the key of the entry they visit, and \<^verbatim>\<open>dbentry\<close> is
  \<^verbatim>\<open>NULL\<close> there: the first entry visited makes \<^verbatim>\<open>hash_search\<close> read a key at a null
  address. Neither table is emptied.
\<close>

theorem entry_reset_null_key:
  "pgss_buckethash ex_full \<noteq> [] \<and> entry_reset ex_full = Inl NullPointer"
  by (simp add: entry_reset_def ex_full_def hash_remove_def ex_key_def ex_agg_key_def)

section \<open>The jumble accumulator: lemmas\<close>

lemma absorb_append: "absorb n H acc (xs @ ys) = absorb n H (absorb n H acc xs) ys"
  by (induction xs arbitrary: acc) simp_all

lemma absorb_chunk:
  assumes "a \<noteq> []" and "length (pre_fold n H acc) + length a \<le> n"
  shows "absorb n H acc (a @ b) = absorb n H (pre_fold n H acc @ a) b"
  using assms
proof (induction a arbitrary: acc)
  case Nil
  then show ?case by simp
next
  case (Cons x a)
  show ?case
  proof (cases "a = []")
    case True
    then show ?thesis by (simp add: pre_fold_def)
  next
    case False
    let ?acc2 = "pre_fold n H acc @ [x]"
    have lt: "length ?acc2 < n" using Cons.prems(2) False by (cases a) simp_all
    then have pf: "pre_fold n H ?acc2 = ?acc2" by (simp add: pre_fold_def)
    have "length (pre_fold n H ?acc2) + length a \<le> n"
      using Cons.prems(2) pf by simp
    from Cons.IH[OF False this] pf
    show ?thesis by (simp add: pre_fold_def)
  qed
qed

lemma size_sub_wrap:
  fixes a b m :: nat
  assumes "b \<le> a" and "a < m"
  shows "(a + m - b) mod m = a - b"
proof -
  have eq: "a + m - b = (a - b) + m" using assms(1) by linarith
  have lt: "a - b < m" using assms(2) by linarith
  have "(a + m - b) mod m = ((a - b) + m) mod m" by (simp only: eq)
  also have "\<dots> = (a - b) mod m" by (rule mod_add_self2)
  also have "\<dots> = a - b" using lt by (rule mod_less)
  finally show ?thesis .
qed

lemma Size_minus_le: "b \<le> a \<Longrightarrow> a < 2 ^ 64 \<Longrightarrow> Size_minus a b = a - b"
  unfolding Size_minus_def by (rule size_sub_wrap)

lemma AppendJumble_loop_absorb:
  assumes "length jbuf = n" and "jlen \<le> n" and "8 < n" and "n < 2 ^ 64"
  shows "\<exists>jbuf' jlen'. AppendJumble_loop n H jbuf jlen item = Some (Inr (jbuf', jlen')) \<and>
           length jbuf' = n \<and> jlen' \<le> n \<and>
           take jlen' jbuf' = absorb n H (take jlen jbuf) item"
  using assms
proof (induction item arbitrary: jbuf jlen rule: length_induct)
  case (1 item)
  note IH = "1.IH" and len = "1.prems"(1) and le = "1.prems"(2) and n8 = "1.prems"(3)
    and n64 = "1.prems"(4)
  show ?case
  proof (cases "item = []")
    case True
    then show ?thesis
      using len le by (subst AppendJumble_loop.simps) simp
  next
    case False
    define jbuf1 where "jbuf1 = (if jlen \<ge> n then bytes_of_uint64 (H jbuf) @ drop 8 jbuf else jbuf)"
    define jlen1 where "jlen1 = (if jlen \<ge> n then 8 else jlen)"
    define part where "part = min (length item) (n - jlen1)"
    have l1: "jlen1 < n" using le n8 by (auto simp: jlen1_def)
    have len1: "length jbuf1 = n" using len n8 by (auto simp: jbuf1_def)
    have sub: "Size_minus n jlen1 = n - jlen1"
      by (rule Size_minus_le[OF less_imp_le[OF l1] n64])
    have ppos: "0 < part" using False l1 by (simp add: part_def)
    have ple: "jlen1 + part \<le> n" using l1 by (simp add: part_def)
    have pfold: "take jlen1 jbuf1 = pre_fold n H (take jlen jbuf)"
    proof (cases "jlen \<ge> n")
      case True
      then have "jlen = n" using le by simp
      then show ?thesis using len True n8
        by (simp add: jlen1_def jbuf1_def pre_fold_def)
    next
      case False
      then show ?thesis using len by (simp add: jlen1_def jbuf1_def pre_fold_def)
    qed
    have first: "(if jlen \<ge> n then
                 (case mem_read jbuf 0 n of
                    None \<Rightarrow> Inl OutOfBounds
                  | Some bs \<Rightarrow>
                      (case mem_write jbuf 0 (bytes_of_uint64 (H bs)) of
                         None \<Rightarrow> Inl OutOfBounds
                       | Some jbuf1 \<Rightarrow> Inr (jbuf1, 8)))
               else Inr (jbuf, jlen)) = Inr (jbuf1, jlen1)"
      using len n8 by (simp add: mem_read_def mem_write_def jbuf1_def jlen1_def)
    define jbuf2 where "jbuf2 = take jlen1 jbuf1 @ take part item @ drop (jlen1 + part) jbuf1"
    have lpart: "length (take part item) = part" by (simp add: part_def)
    have w: "mem_write jbuf1 jlen1 (take part item) = Some jbuf2"
      using ple len1 lpart by (simp add: mem_write_def jbuf2_def)
    have len2: "length jbuf2 = n" using ple len1 lpart l1 by (simp add: jbuf2_def)
    have tk2: "take (jlen1 + part) jbuf2 = take jlen1 jbuf1 @ take part item"
      using len1 l1 lpart by (simp add: jbuf2_def)
    have shorter: "length (drop part item) < length item" using ppos False by simp
    from IH[rule_format, OF shorter len2 ple n8 n64]
    obtain jbuf' jlen' where
      r: "AppendJumble_loop n H jbuf2 (jlen1 + part) (drop part item) = Some (Inr (jbuf', jlen'))"
      and r1: "length jbuf' = n" "jlen' \<le> n"
      and r2: "take jlen' jbuf' = absorb n H (take (jlen1 + part) jbuf2) (drop part item)"
      by blast
    have tne: "take part item \<noteq> []" using ppos False by (cases item) (simp_all add: part_def)
    have "length (pre_fold n H (take jlen jbuf)) + length (take part item) \<le> n"
      using pfold[symmetric] ple len1 l1 lpart by simp
    from absorb_chunk[OF tne this, of "drop part item"]
    have "absorb n H (take jlen jbuf) item
            = absorb n H (take jlen1 jbuf1 @ take part item) (drop part item)"
      by (simp add: pfold)
    then have r3: "take jlen' jbuf' = absorb n H (take jlen jbuf) item"
      using r2 tk2 by simp
    have "AppendJumble_loop n H jbuf jlen item = Some (Inr (jbuf', jlen'))"
      apply (subst AppendJumble_loop.simps)
      unfolding first
      using False w r sub by (simp add: part_def)
    then show ?thesis using r1 r3 by blast
  qed
qed


lemma AppendJumble_absorb:
  assumes "jumble_ok e jstate" and "8 < JUMBLE_SIZE e" and "JUMBLE_SIZE e < 2 ^ 64"
  shows "\<exists>jstate'. AppendJumble e jstate item = Some (Inr jstate') \<and> jumble_ok e jstate' \<and>
           jumble_bytes jstate' =
             absorb (JUMBLE_SIZE e) (hash_any_extended e) (jumble_bytes jstate) item \<and>
           jstate' = jstate\<lparr>jumble := jumble jstate', jumble_len := jumble_len jstate'\<rparr>"
proof -
  have a: "length (jumble jstate) = JUMBLE_SIZE e" "jumble_len jstate \<le> JUMBLE_SIZE e"
    using assms(1) by (simp_all add: jumble_ok_def)
  from AppendJumble_loop_absorb[OF a assms(2,3), of "hash_any_extended e" item]
  obtain jbuf' jlen' where
    r: "AppendJumble_loop (JUMBLE_SIZE e) (hash_any_extended e) (jumble jstate)
          (jumble_len jstate) item = Some (Inr (jbuf', jlen'))"
    and r1: "length jbuf' = JUMBLE_SIZE e" "jlen' \<le> JUMBLE_SIZE e"
    and r2: "take jlen' jbuf' = absorb (JUMBLE_SIZE e) (hash_any_extended e)
               (take (jumble_len jstate) (jumble jstate)) item"
    by blast
  show ?thesis
    apply (rule exI[of _ "jstate\<lparr>jumble := jbuf', jumble_len := jlen'\<rparr>"])
    using r r1 r2 by (simp add: AppendJumble_def jumble_ok_def jumble_bytes_def)
qed

text \<open>
  C9. From an accumulator whose buffer has \<open>JUMBLE_SIZE\<close> bytes (more than the 8 of a
  hash) and whose length is within it, every sequence of appends returns, the length is
  within \<open>JUMBLE_SIZE\<close> again, and the bytes that count are those of \<open>absorb\<close> over all
  the bytes appended: each byte is added at the end, after the accumulator, if full, has
  been replaced by the hash of all its \<open>JUMBLE_SIZE\<close> bytes.
\<close>

theorem AppendJumble_bounded:
  assumes "jumble_ok e jstate" and "8 < JUMBLE_SIZE e" and "JUMBLE_SIZE e < 2 ^ 64"
  shows "\<exists>jstate'. AppendJumble_all e jstate items = Some (Inr jstate') \<and>
           length (jumble jstate') = JUMBLE_SIZE e \<and>
           jumble_len jstate' \<le> JUMBLE_SIZE e \<and>
           jumble_bytes jstate' =
             absorb (JUMBLE_SIZE e) (hash_any_extended e) (jumble_bytes jstate) (concat items)"
  using assms(1)
proof (induction items arbitrary: jstate)
  case Nil
  then show ?case by (simp add: jumble_ok_def)
next
  case (Cons item items)
  from AppendJumble_absorb[OF Cons.prems assms(2,3), of item]
  obtain js1 where s1: "AppendJumble e jstate item = Some (Inr js1)" and ok1: "jumble_ok e js1"
    and b1: "jumble_bytes js1 =
               absorb (JUMBLE_SIZE e) (hash_any_extended e) (jumble_bytes jstate) item"
    by blast
  from Cons.IH[OF ok1] obtain js2 where
    s2: "AppendJumble_all e js1 items = Some (Inr js2)"
    and l2: "length (jumble js2) = JUMBLE_SIZE e" "jumble_len js2 \<le> JUMBLE_SIZE e"
    and b2: "jumble_bytes js2 =
               absorb (JUMBLE_SIZE e) (hash_any_extended e) (jumble_bytes js1) (concat items)"
    by blast
  have "AppendJumble_all e jstate (item # items) = Some (Inr js2)"
    using s1 s2 by simp
  moreover have "jumble_bytes js2 =
      absorb (JUMBLE_SIZE e) (hash_any_extended e) (jumble_bytes jstate) (concat (item # items))"
    using b1 b2 by (simp add: absorb_append)
  ultimately show ?case using l2 by blast
qed

theorem AppendJumble_bounded_witness:
  "jumble_ok ex_jumble_config ex_jstate \<and> 8 < JUMBLE_SIZE ex_jumble_config \<and>
   (\<exists>jstate'. AppendJumble_all ex_jumble_config ex_jstate
                 [[1, 2, 3, 4, 5, 6, 7, 8, 9, 10], [11, 12, 13, 14, 15, 16]] = Some (Inr jstate') \<and>
      jumble_len jstate' \<le> 12 \<and>
      jumble_bytes jstate' = [12, 0, 0, 0, 0, 0, 0, 0, 13, 14, 15, 16])"
proof -
  have h1: "jumble_ok ex_jumble_config ex_jstate"
    by (simp add: jumble_ok_def ex_jumble_config_def ex_jstate_def)
  have h2: "8 < JUMBLE_SIZE ex_jumble_config" by (simp add: ex_jumble_config_def)
  have h3: "JUMBLE_SIZE ex_jumble_config < 2 ^ 64" by (simp add: ex_jumble_config_def)
  have b: "jumble_bytes ex_jstate = []" by (simp add: jumble_bytes_def ex_jstate_def)
  have a: "absorb (JUMBLE_SIZE ex_jumble_config) (hash_any_extended ex_jumble_config) []
             (concat [[1, 2, 3, 4, 5, 6, 7, 8, 9, 10], [11, 12, 13, 14, 15, 16]])
           = [12, 0, 0, 0, 0, 0, 0, 0, 13, 14, 15, 16]"
    by (simp add: ex_jumble_config_def bytes_of_uint64_def upt_rec)
  from AppendJumble_bounded[OF h1 h2 h3,
      of "[[1, 2, 3, 4, 5, 6, 7, 8, 9, 10], [11, 12, 13, 14, 15, 16]]"]
  obtain js' where
    "AppendJumble_all ex_jumble_config ex_jstate
       [[1, 2, 3, 4, 5, 6, 7, 8, 9, 10], [11, 12, 13, 14, 15, 16]] = Some (Inr js')"
    "jumble_len js' \<le> JUMBLE_SIZE ex_jumble_config"
    "jumble_bytes js' = absorb (JUMBLE_SIZE ex_jumble_config) (hash_any_extended ex_jumble_config)
        (jumble_bytes ex_jstate) (concat [[1, 2, 3, 4, 5, 6, 7, 8, 9, 10], [11, 12, 13, 14, 15, 16]])"
    by blast
  then have "AppendJumble_all ex_jumble_config ex_jstate
       [[1, 2, 3, 4, 5, 6, 7, 8, 9, 10], [11, 12, 13, 14, 15, 16]] = Some (Inr js') \<and>
      jumble_len js' \<le> 12 \<and> jumble_bytes js' = [12, 0, 0, 0, 0, 0, 0, 0, 13, 14, 15, 16]"
    using a b by (simp add: ex_jumble_config_def)
  then show ?thesis using h1 h2 by blast
qed

section \<open>The walk of a statement tree: lemmas\<close>

























end
